theory Spec2Isabelle
  imports Complex_Main "HOL-Library.Monad_Syntax"
begin

section \<open>Integer arithmetic of the source\<close>

text \<open>
  The source computes with C++ \<open>int\<close> (32 bits) and \<open>int64_t\<close>. The model computes with
  \<^typ>\<open>int\<close>, so a sum or a product of the model is the mathematical one. It is the value the
  source computes as long as that value lies in the type of the expression; beyond it the
  source overflows (signed overflow has no defined behaviour in C++) and the model does not
  describe it. The expressions concerned are the product \<open>width * height\<close> of
  \<open>generate_mapping\<close> and \<open>process_image\<close> (an \<open>int\<close>), the sums and products inside
  \<open>generate2d\<close> (all \<open>int\<close>; they stay within \<open>int\<close> whenever \<open>width * height\<close> does, see the
  section on overflow inside the generator), the sum \<open>i + offset\<close> of \<open>get_indices\<close> (an
  \<open>int64_t\<close>), and the loop counter \<open>int i\<close> of \<open>copy_pixels\<close>, which runs up to the \<open>int64_t\<close>
  \<open>total\<close>. The two constants below, the largest \<open>int\<close> and the largest \<open>int64_t\<close>, state in
  the theorems the bounds under which no such expression leaves its type.

  Division and remainder truncate towards zero in C++, unlike \<open>div\<close> and \<open>mod\<close> on
  \<^typ>\<open>int\<close>.
\<close>

definition INT_MAX :: int where
  "INT_MAX = 2147483647"

definition INT64_MAX :: int where
  "INT64_MAX = 9223372036854775807"

text \<open>A value of the model is the value of an \<open>int\<close> of the source when it lies in this range.\<close>

definition int_range :: "int \<Rightarrow> bool" where
  "int_range v \<longleftrightarrow> - INT_MAX - 1 \<le> v \<and> v \<le> INT_MAX"

definition c_div :: "int \<Rightarrow> int \<Rightarrow> int" where
  "c_div a b = sgn a * sgn b * (\<bar>a\<bar> div \<bar>b\<bar>)"

definition c_mod :: "int \<Rightarrow> int \<Rightarrow> int" where
  "c_mod a b = a - c_div a b * b"

text \<open>The unit step \<open>(a == 0 ? 0 : a > 0 ? 1 : -1)\<close>.\<close>

definition unit_step :: "int \<Rightarrow> int" where
  "unit_step a = (if a = 0 then 0 else if a > 0 then 1 else -1)"

section \<open>The curve generator\<close>

text \<open>A \<open>cv::Point\<close> is the pair of its fields \<open>x\<close> and \<open>y\<close>.\<close>

type_synonym Point = "int \<times> int"

text \<open>
  The two base-case loops of \<open>generate2d\<close>,
  \<open>for (int i = 0; i < n; ++i) { coordinates->emplace_back(x, y); x += dx; y += dy; }\<close>,
  started at \<open>i = 0\<close>.
\<close>

function fill_line ::
  "int \<Rightarrow> int \<Rightarrow> int \<Rightarrow> int \<Rightarrow> int \<Rightarrow> int \<Rightarrow> Point list \<Rightarrow> Point list" where
  "fill_line i n x y dx dy coordinates =
     (if i < n then fill_line (i + 1) n (x + dx) (y + dy) dx dy (coordinates @ [(x, y)])
      else coordinates)"
  by pat_completeness auto
termination
  by (relation "measure (\<lambda>(i, n, x, y, dx, dy, cs). nat (n - i))") auto

declare fill_line.simps [simp del]

text \<open>
  \<open>generate2d\<close> appends to the vector it is given and returns nothing; the model takes the
  vector and returns the extended one. The recursion does not end on every argument (the
  call with \<open>a = b = (0, 0)\<close> calls itself with the same arguments), so the function is
  defined as a partial function: \<open>None\<close> is a call that never returns.
\<close>

partial_function (option) generate2d ::
  "int \<Rightarrow> int \<Rightarrow> int \<Rightarrow> int \<Rightarrow> int \<Rightarrow> int \<Rightarrow> Point list \<Rightarrow> Point list option" where
  "generate2d x y ax ay bx by coordinates =
    (let w = \<bar>ax + ay\<bar>;
         h = \<bar>bx + by\<bar>;
         dax = unit_step ax;
         day = unit_step ay;
         dbx = unit_step bx;
         dby = unit_step by
     in
       if h = 1 then Some (fill_line 0 w x y dax day coordinates)
       else if w = 1 then Some (fill_line 0 h x y dbx dby coordinates)
       else
         let ax2 = c_div ax 2; ay2 = c_div ay 2;
             bx2 = c_div bx 2; by2 = c_div by 2;
             w2 = \<bar>ax2 + ay2\<bar>;
             h2 = \<bar>bx2 + by2\<bar>
         in
           if 2 * w > 3 * h then
             let odd_half = (c_mod w2 2 \<noteq> 0 \<and> w > 2);
                 ax2 = (if odd_half then ax2 + dax else ax2);
                 ay2 = (if odd_half then ay2 + day else ay2)
             in do {
               c1 \<leftarrow> generate2d x y ax2 ay2 bx by coordinates;
               generate2d (x + ax2) (y + ay2) (ax - ax2) (ay - ay2) bx by c1
             }
           else
             let odd_half = (c_mod h2 2 \<noteq> 0 \<and> h > 2);
                 bx2 = (if odd_half then bx2 + dbx else bx2);
                 by2 = (if odd_half then by2 + dby else by2)
             in do {
               c1 \<leftarrow> generate2d x y bx2 by2 ax2 ay2 coordinates;
               c2 \<leftarrow> generate2d (x + bx2) (y + by2) ax ay (bx - bx2) (by - by2) c1;
               generate2d (x + (ax - dax) + (bx2 - dbx)) (y + (ay - day) + (by2 - dby))
                          (- bx2) (- by2) (- (ax - ax2)) (- (ay - ay2)) c2
             })"

declare generate2d.simps [code]

text \<open>
  The arguments \<open>(x, y, ax, ay, bx, by)\<close> of the recursive calls that one activation of
  \<open>generate2d\<close> makes, in the order of the source: none in the two base cases, two for the
  long rectangle, three otherwise.
\<close>

type_synonym call = "int \<times> int \<times> int \<times> int \<times> int \<times> int"

definition generate2d_calls :: "int \<Rightarrow> int \<Rightarrow> int \<Rightarrow> int \<Rightarrow> int \<Rightarrow> int \<Rightarrow> call list" where
  "generate2d_calls x y ax ay bx by =
    (let w = \<bar>ax + ay\<bar>;
         h = \<bar>bx + by\<bar>;
         dax = unit_step ax;
         day = unit_step ay;
         dbx = unit_step bx;
         dby = unit_step by
     in
       if h = 1 then []
       else if w = 1 then []
       else
         let ax2 = c_div ax 2; ay2 = c_div ay 2;
             bx2 = c_div bx 2; by2 = c_div by 2;
             w2 = \<bar>ax2 + ay2\<bar>;
             h2 = \<bar>bx2 + by2\<bar>
         in
           if 2 * w > 3 * h then
             let odd_half = (c_mod w2 2 \<noteq> 0 \<and> w > 2);
                 ax2 = (if odd_half then ax2 + dax else ax2);
                 ay2 = (if odd_half then ay2 + day else ay2)
             in [(x, y, ax2, ay2, bx, by),
                 (x + ax2, y + ay2, ax - ax2, ay - ay2, bx, by)]
           else
             let odd_half = (c_mod h2 2 \<noteq> 0 \<and> h > 2);
                 bx2 = (if odd_half then bx2 + dbx else bx2);
                 by2 = (if odd_half then by2 + dby else by2)
             in [(x, y, bx2, by2, ax2, ay2),
                 (x + bx2, y + by2, ax, ay, bx - bx2, by - by2),
                 (x + (ax - dax) + (bx2 - dbx), y + (ay - day) + (by2 - dby),
                  - bx2, - by2, - (ax - ax2), - (ay - ay2))])"




text \<open>
  The values of type \<open>int\<close> that one activation of \<open>generate2d\<close> computes from its
  arguments: the two lengths; in a base case the counter and the two coordinates of the loop,
  up to the values they have when the loop ends; otherwise the halves, the two products of
  the test \<open>2 * w > 3 * h\<close>, and every argument of the recursive calls with the
  subexpressions it is built from. The unit steps, which are \<open>-1\<close>, \<open>0\<close> or \<open>1\<close>, and the
  remainders \<open>w2 % 2\<close> and \<open>h2 % 2\<close> are left out.
\<close>

definition generate2d_values :: "int \<Rightarrow> int \<Rightarrow> int \<Rightarrow> int \<Rightarrow> int \<Rightarrow> int \<Rightarrow> int list" where
  "generate2d_values x y ax ay bx by =
    (let w = \<bar>ax + ay\<bar>;
         h = \<bar>bx + by\<bar>;
         dax = unit_step ax;
         day = unit_step ay;
         dbx = unit_step bx;
         dby = unit_step by
     in
       [ax + ay, w, bx + by, h] @
       (if h = 1 then concat (map (\<lambda>i. [i, x + i * dax, y + i * day]) [0..w])
        else if w = 1 then concat (map (\<lambda>i. [i, x + i * dbx, y + i * dby]) [0..h])
        else
          let ax2 = c_div ax 2; ay2 = c_div ay 2;
              bx2 = c_div bx 2; by2 = c_div by 2;
              w2 = \<bar>ax2 + ay2\<bar>;
              h2 = \<bar>bx2 + by2\<bar>
          in
            [ax2, ay2, bx2, by2, ax2 + ay2, w2, bx2 + by2, h2, 2 * w, 3 * h] @
            (if 2 * w > 3 * h then
               let odd_half = (c_mod w2 2 \<noteq> 0 \<and> w > 2);
                   ax2 = (if odd_half then ax2 + dax else ax2);
                   ay2 = (if odd_half then ay2 + day else ay2)
               in [ax2, ay2, x + ax2, y + ay2, ax - ax2, ay - ay2]
             else
               let odd_half = (c_mod h2 2 \<noteq> 0 \<and> h > 2);
                   bx2 = (if odd_half then bx2 + dbx else bx2);
                   by2 = (if odd_half then by2 + dby else by2)
               in [bx2, by2, x + bx2, y + by2, bx - bx2, by - by2,
                   ax - dax, x + (ax - dax), bx2 - dbx, x + (ax - dax) + (bx2 - dbx),
                   ay - day, y + (ay - day), by2 - dby, y + (ay - day) + (by2 - dby),
                   - bx2, - by2, ax - ax2, - (ax - ax2), ay - ay2, - (ay - ay2)])))"

text \<open>
  The call of \<open>generate2d\<close> that \<open>generate_mapping\<close> makes, and the activations that a call
  leads to: the call itself and, from each of them, its recursive calls.
\<close>

definition first_call :: "int \<Rightarrow> int \<Rightarrow> call" where
  "first_call width height =
     (if width \<ge> height then (0, 0, width, 0, 0, height) else (0, 0, 0, height, width, 0))"

inductive reaches :: "call \<Rightarrow> call \<Rightarrow> bool" for c :: call where
  start: "reaches c c"
| sub: "reaches c (x, y, ax, ay, bx, by) \<Longrightarrow> c' \<in> set (generate2d_calls x y ax ay bx by)
         \<Longrightarrow> reaches c c'"

subsection \<open>Errors\<close>

text \<open>
  The source reports a failure by a message on the error stream followed by an early return.
  Each message is a constructor. \<open>OutOfRangeAccess\<close> and \<open>ElementTypeMismatch\<close> are no
  messages. The first stands for an unchecked access outside a vector or outside the pixel
  grid of a \<open>cv::Mat\<close>, which has no defined behaviour. The second stands for an access
  \<open>at<T>\<close> to a \<open>cv::Mat\<close> whose element type is not \<open>T\<close>: the library specifies \<open>at<T>\<close> for
  the element type of the matrix only (a debug build stops at an assertion, a release build
  reinterprets the bytes of the row), and the model does not describe what it does otherwise.
\<close>

datatype cv_depth = CV_8U | CV_8S | CV_16U | CV_16S | CV_32S | CV_32F | CV_64F | CV_16F

datatype error =
    InvalidDimensions int int
  | CoordinateCountMismatch nat int
  | UnsupportedChannels int
  | UnsupportedDepth cv_depth
  | InvalidCurve
  | CurveSizeMismatch nat int
  | CurveOutOfBounds int int
  | AllZeroOutput
  | OutOfRangeAccess
  | ElementTypeMismatch

text \<open>
  \<open>generate_mapping\<close> returns a vector and writes to the log. The model returns the error
  messages it logged together with the vector; the progress messages are left out. The
  source computes \<open>width * height\<close> as an \<open>int\<close>, for \<open>reserve\<close> and for the test of the size:
  the product of the definition is that value when \<open>width * height \<le> INT_MAX\<close>.
\<close>

definition generate_mapping :: "int \<Rightarrow> int \<Rightarrow> (error list \<times> Point list) option" where
  "generate_mapping width height =
    (if width \<le> 0 \<or> height \<le> 0 then Some ([InvalidDimensions width height], [])
     else do {
       coordinates \<leftarrow>
         (if width \<ge> height then generate2d 0 0 width 0 0 height []
          else generate2d 0 0 0 height width 0 []);
       if int (length coordinates) \<noteq> width * height
       then Some ([CoordinateCountMismatch (length coordinates) (width * height)], [])
       else Some ([], coordinates)
     })"

section \<open>The permutation engine\<close>

subsection \<open>Double precision\<close>

text \<open>
  The offset is computed in binary64. A finite double is \<open>mantissa * 2 ^ exponent\<close>; the
  operations round to nearest, ties to even, to 53 significant bits. Overflow and subnormal
  numbers do not occur at the magnitudes of this program and are not modelled.
\<close>

fun bit_length :: "nat \<Rightarrow> nat" where
  "bit_length n = (if n = 0 then 0 else Suc (bit_length (n div 2)))"

declare bit_length.simps [simp del]

definition round_sig53 :: "int \<Rightarrow> int" where
  "round_sig53 m =
    (let n = nat \<bar>m\<bar>;
         k = bit_length n - 53
     in if k = 0 then m
        else
          let q = n div 2 ^ k;
              r = n mod 2 ^ k;
              q' = (if 2 * r > 2 ^ k \<or> (2 * r = 2 ^ k \<and> odd q) then q + 1 else q)
          in sgn m * int (q' * 2 ^ k))"

record double =
  mantissa :: int
  exponent :: int

definition double_of_int :: "int \<Rightarrow> double" where
  "double_of_int n = \<lparr>mantissa = round_sig53 n, exponent = 0\<rparr>"

definition double_mul :: "double \<Rightarrow> double \<Rightarrow> double" where
  "double_mul a b =
     \<lparr>mantissa = round_sig53 (mantissa a * mantissa b), exponent = exponent a + exponent b\<rparr>"

definition double_sub :: "double \<Rightarrow> double \<Rightarrow> double" where
  "double_sub a b =
    (let e = min (exponent a) (exponent b)
     in \<lparr>mantissa = round_sig53 (mantissa a * 2 ^ nat (exponent a - e)
                                  - mantissa b * 2 ^ nat (exponent b - e)),
         exponent = e\<rparr>)"

text \<open>Division by two only lowers the exponent.\<close>

definition double_div2 :: "double \<Rightarrow> double" where
  "double_div2 a = a\<lparr>exponent := exponent a - 1\<rparr>"

text \<open>\<open>sqrt(5)\<close>: the double nearest to the square root of five, \<open>0x1.1e3779b97f4a8p+1\<close>.\<close>

definition sqrt_5 :: double where
  "sqrt_5 = \<lparr>mantissa = 629397181890197, exponent = - 48\<rparr>"

text \<open>\<open>double golden_ratio = (sqrt(5) - 1) / 2;\<close>\<close>

definition golden_ratio :: double where
  "golden_ratio = double_div2 (double_sub sqrt_5 (double_of_int 1))"

text \<open>\<open>round\<close> of the C library: to the nearest integer, halfway cases away from zero.\<close>

definition c_round :: "double \<Rightarrow> int" where
  "c_round d =
    (let m = mantissa d; e = exponent d
     in if 0 \<le> e then m * 2 ^ nat e
        else sgn m * ((\<bar>m\<bar> + 2 ^ (nat (- e) - 1)) div 2 ^ nat (- e)))"

text \<open>\<open>int64_t offset = round(golden_ratio * total);\<close>\<close>

definition golden_offset :: "int \<Rightarrow> int" where
  "golden_offset total' = c_round (double_mul golden_ratio (double_of_int total'))"

subsection \<open>Pixel buffers\<close>

text \<open>
  A \<open>cv::Mat\<close> is its shape, its type (\<open>mat_channels\<close> and \<open>mat_depth\<close> are what the
  methods \<open>channels()\<close> and \<open>depth()\<close> return) and its pixels in row-major order; a pixel is
  the list of its channel values. \<open>mat_at\<close> and \<open>mat_set_at\<close> are the read and the write through
  \<open>at<T>(y, x)\<close> for the element type \<open>T\<close> of the matrix; outside the grid they have no
  defined behaviour, so the model returns \<open>None\<close> there.
\<close>

type_synonym pixel = "nat list"

record Mat =
  rows :: int
  cols :: int
  mat_channels :: int
  mat_depth :: cv_depth
  data :: "pixel list"

definition cell_index :: "Mat \<Rightarrow> int \<Rightarrow> int \<Rightarrow> nat" where
  "cell_index m y x = nat (y * cols m + x)"

definition in_Mat :: "Mat \<Rightarrow> int \<Rightarrow> int \<Rightarrow> bool" where
  "in_Mat m y x \<longleftrightarrow>
     0 \<le> y \<and> y < rows m \<and> 0 \<le> x \<and> x < cols m \<and> cell_index m y x < length (data m)"

definition mat_at :: "Mat \<Rightarrow> int \<Rightarrow> int \<Rightarrow> pixel option" where
  "mat_at m y x = (if in_Mat m y x then Some (data m ! cell_index m y x) else None)"

definition mat_set_at :: "Mat \<Rightarrow> int \<Rightarrow> int \<Rightarrow> pixel \<Rightarrow> Mat option" where
  "mat_set_at m y x v =
     (if in_Mat m y x then Some (m\<lparr>data := (data m)[cell_index m y x := v]\<rparr>) else None)"

text \<open>\<open>Mat output_img(img.size(), img.type(), Scalar(0));\<close>\<close>

definition zeros_like :: "Mat \<Rightarrow> Mat" where
  "zeros_like img =
     img\<lparr>data := replicate (nat (rows img * cols img)) (replicate (nat (mat_channels img)) 0)\<rparr>"

text \<open>
  \<open>cv::sum\<close>: the sum of each of the four channels of a \<open>Scalar\<close>, zero for a channel the
  image does not have. The values are unsigned, so the sums are exact where the test against
  zero is concerned.
\<close>

definition cv_sum :: "Mat \<Rightarrow> nat list" where
  "cv_sum m =
     map (\<lambda>c. sum_list (map (\<lambda>px. if c < length px then px ! c else 0) (data m))) [0, 1, 2, 3]"

text \<open>An image as the decoder hands it over: every cell of the grid has its pixel.\<close>

definition wf_Mat :: "Mat \<Rightarrow> bool" where
  "wf_Mat m \<longleftrightarrow> 0 \<le> rows m \<and> 0 \<le> cols m \<and> length (data m) = nat (rows m * cols m)"

definition all_zero :: "Mat \<Rightarrow> bool" where
  "all_zero m \<longleftrightarrow> list_all (list_all (\<lambda>v. v = 0)) (data m)"

subsection \<open>Copying the pixels\<close>

text \<open>The unchecked \<open>curve[i]\<close>.\<close>

definition vec_at :: "'a list \<Rightarrow> int \<Rightarrow> 'a option" where
  "vec_at v i = (if 0 \<le> i \<and> i < int (length v) then Some (v ! nat i) else None)"

text \<open>
  The lambda \<open>get_indices\<close> of \<open>copy_pixels\<close>, with its captures \<open>offset\<close> and \<open>total\<close>
  (written \<open>total'\<close> in the definitions: \<open>total\<close> is a constant of the library). In the
  source the sum \<open>i + offset\<close> is an \<open>int64_t\<close> and the remainder is converted to \<open>int\<close>;
  these are the values of the definition when \<open>i + offset \<le> INT64_MAX\<close> and the remainder
  is at most \<open>INT_MAX\<close>.
\<close>

definition get_indices :: "int \<Rightarrow> int \<Rightarrow> int \<Rightarrow> bool \<Rightarrow> int \<times> int" where
  "get_indices offset total' i encrypt =
     (if encrypt then (i, c_mod (i + offset) total')
      else (c_mod (i + offset) total', i))"

text \<open>
  The six element types that \<open>copy_pixels\<close> passes to \<open>at<T>\<close>, each with the depth and
  the number of channels of the matrices it is the element type of, and \<open>type()\<close> of a
  matrix as that pair.
\<close>

datatype elem_type = uchar | Vec3b | Vec4b | ushort | Vec3w | Vec4w

fun type_of_elem :: "elem_type \<Rightarrow> cv_depth \<times> int" where
  "type_of_elem uchar = (CV_8U, 1)"
| "type_of_elem Vec3b = (CV_8U, 3)"
| "type_of_elem Vec4b = (CV_8U, 4)"
| "type_of_elem ushort = (CV_16U, 1)"
| "type_of_elem Vec3w = (CV_16U, 3)"
| "type_of_elem Vec4w = (CV_16U, 4)"

definition mat_type :: "Mat \<Rightarrow> cv_depth \<times> int" where
  "mat_type m = (mat_depth m, mat_channels m)"

text \<open>
  One assignment \<open>dst_img->at<T>(dest_p.y, dest_p.x) = src_img.at<T>(src_p.y, src_p.x)\<close>.
  When \<open>T\<close> is the element type of both matrices it copies the whole pixel. The two
  matrices are values of the model, each with its own pixel data, as in \<open>process_image\<close>,
  which creates the destination for the call; a destination that shares its pixel data with
  the source is not described.
\<close>

definition copy_pixel :: "elem_type \<Rightarrow> Mat \<Rightarrow> Mat \<Rightarrow> Point \<Rightarrow> Point \<Rightarrow> error + Mat" where
  "copy_pixel T src_img dst_img src_p dest_p =
    (if mat_type src_img \<noteq> type_of_elem T \<or> mat_type dst_img \<noteq> type_of_elem T
     then Inl ElementTypeMismatch
     else
       (case mat_at src_img (snd src_p) (fst src_p) of
          None \<Rightarrow> Inl OutOfRangeAccess
        | Some v \<Rightarrow>
           (case mat_set_at dst_img (snd dest_p) (fst dest_p) v of
              None \<Rightarrow> Inl OutOfRangeAccess
            | Some dst' \<Rightarrow> Inr dst')))"

text \<open>
  The loop of \<open>copy_pixels\<close> from index \<open>i\<close> on. The arguments \<open>depth\<close> and \<open>channels\<close>
  choose the element type of the assignment; any combination other than the six of the
  source copies nothing. The progress output is left out.
\<close>

function copy_loop ::
  "int \<Rightarrow> Mat \<Rightarrow> Mat \<Rightarrow> Point list \<Rightarrow> int \<Rightarrow> int \<Rightarrow> bool \<Rightarrow> int \<Rightarrow> cv_depth \<Rightarrow> error + Mat" where
  "copy_loop i src_img dst_img curve total' offset is_encrypt channels depth =
    (if i < total' then
       (let (src_idx, dest_idx) = get_indices offset total' i is_encrypt
        in case (vec_at curve src_idx, vec_at curve dest_idx) of
             (Some src_p, Some dest_p) \<Rightarrow>
               (case
                  (if depth = CV_8U then
                     (if channels = 1 then copy_pixel uchar src_img dst_img src_p dest_p
                      else if channels = 3 then copy_pixel Vec3b src_img dst_img src_p dest_p
                      else if channels = 4 then copy_pixel Vec4b src_img dst_img src_p dest_p
                      else Inr dst_img)
                   else if depth = CV_16U then
                     (if channels = 1 then copy_pixel ushort src_img dst_img src_p dest_p
                      else if channels = 3 then copy_pixel Vec3w src_img dst_img src_p dest_p
                      else if channels = 4 then copy_pixel Vec4w src_img dst_img src_p dest_p
                      else Inr dst_img)
                   else Inr dst_img)
                of Inl e \<Rightarrow> Inl e
                 | Inr dst' \<Rightarrow>
                     copy_loop (i + 1) src_img dst' curve total' offset is_encrypt channels depth)
           | _ \<Rightarrow> Inl OutOfRangeAccess)
     else Inr dst_img)"
  by pat_completeness auto
termination
  by (relation "measure (\<lambda>(i, src, dst, curve, total', rest). nat (total' - i))") auto

declare copy_loop.simps [simp del]

definition copy_pixels ::
  "Mat \<Rightarrow> Mat \<Rightarrow> Point list \<Rightarrow> int \<Rightarrow> int \<Rightarrow> bool \<Rightarrow> int \<Rightarrow> cv_depth \<Rightarrow> error + Mat" where
  "copy_pixels src_img dst_img curve total' offset is_encrypt channels depth =
     copy_loop 0 src_img dst_img curve total' offset is_encrypt channels depth"

subsection \<open>Processing one image\<close>

text \<open>
  \<open>process_image\<close> between the decoding of the file and the writing of the result: from
  \<open>int width = img.cols\<close> to the test of the sums. \<open>process_curve\<close> is the part that
  follows the call of \<open>generate_mapping\<close>, as a function of the curve it returned. The
  result is the image that the source goes on to write, or the error it reported.
\<close>

definition process_curve :: "Mat \<Rightarrow> Point list \<Rightarrow> bool \<Rightarrow> error + Mat" where
  "process_curve img curve is_encrypt =
    (let width = cols img; height = rows img;
         total' = width * height
     in
       if curve = [] then Inl InvalidCurve
       else if int (length curve) \<noteq> total' then Inl (CurveSizeMismatch (length curve) total')
       else
         (case find (\<lambda>p. fst p < 0 \<or> fst p \<ge> width \<or> snd p < 0 \<or> snd p \<ge> height) curve of
            Some p \<Rightarrow> Inl (CurveOutOfBounds (fst p) (snd p))
          | None \<Rightarrow>
             (let output_img = zeros_like img;
                  offset = golden_offset total'
              in case copy_pixels img output_img curve total' offset is_encrypt
                        (mat_channels img) (mat_depth img) of
                   Inl e \<Rightarrow> Inl e
                 | Inr out \<Rightarrow>
                    (let s = cv_sum out
                     in if s ! 0 = 0 \<and> s ! 1 = 0 \<and> s ! 2 = 0 \<and> s ! 3 = 0
                        then Inl AllZeroOutput
                        else Inr out))))"

definition process_image :: "Mat \<Rightarrow> bool \<Rightarrow> (error + Mat) option" where
  "process_image img is_encrypt =
    (let width = cols img; height = rows img
     in
       if mat_channels img \<noteq> 1 \<and> mat_channels img \<noteq> 3 \<and> mat_channels img \<noteq> 4
       then Some (Inl (UnsupportedChannels (mat_channels img)))
       else if mat_depth img \<noteq> CV_8U \<and> mat_depth img \<noteq> CV_16U
       then Some (Inl (UnsupportedDepth (mat_depth img)))
       else do {
         (log, curve) \<leftarrow> generate_mapping width height;
         Some (process_curve img curve is_encrypt)
       })"

section \<open>Notions used in the proofs\<close>

text \<open>
  The cells that a signed extent \<open>d\<close> covers from position \<open>p\<close>: \<open>p, p + 1, \<dots>\<close> for a
  positive extent, \<open>p, p - 1, \<dots>\<close> for a negative one, \<open>\<bar>d\<bar>\<close> cells in all.
\<close>

definition span :: "int \<Rightarrow> int \<Rightarrow> int set" where
  "span p d = (if 0 < d then {p ..< p + d} else {p + d <.. p})"

text \<open>
  A call of \<open>generate2d\<close> on an axis-parallel rectangle: the primary vector is \<open>(a, 0)\<close> and
  the orthogonal one \<open>(0, b)\<close>, or the primary vector is \<open>(0, a)\<close> and the orthogonal one
  \<open>(b, 0)\<close>. \<open>rect\<close> is the set of cells of that rectangle.
\<close>

definition gen_axis :: "bool \<Rightarrow> int \<Rightarrow> int \<Rightarrow> int \<Rightarrow> int \<Rightarrow> Point list \<Rightarrow> Point list option" where
  "gen_axis horiz x y a b cs =
     (if horiz then generate2d x y a 0 0 b cs else generate2d x y 0 a b 0 cs)"

definition rect :: "bool \<Rightarrow> int \<Rightarrow> int \<Rightarrow> int \<Rightarrow> int \<Rightarrow> Point set" where
  "rect horiz x y a b = (if horiz then span x a \<times> span y b else span x b \<times> span y a)"

text \<open>The half of a signed extent after the adjustment that prefers an even length.\<close>

definition half_adj :: "int \<Rightarrow> int" where
  "half_adj a = (if c_mod \<bar>c_div a 2\<bar> 2 \<noteq> 0 \<and> \<bar>a\<bar> > 2 then c_div a 2 + sgn a else c_div a 2)"



text \<open>The formats for which \<open>copy_pixels\<close> has a branch.\<close>

definition supported_format :: "int \<Rightarrow> cv_depth \<Rightarrow> bool" where
  "supported_format ch d \<longleftrightarrow> (d = CV_8U \<or> d = CV_16U) \<and> (ch = 1 \<or> ch = 3 \<or> ch = 4)"

text \<open>
  A valid curve for a shape: no coordinate twice, as many coordinates as the grid has cells,
  and every coordinate inside the grid. Such a curve visits every cell exactly once.
\<close>

definition in_grid :: "int \<Rightarrow> int \<Rightarrow> Point \<Rightarrow> bool" where
  "in_grid width height p \<longleftrightarrow> 0 \<le> fst p \<and> fst p < width \<and> 0 \<le> snd p \<and> snd p < height"

definition valid_curve :: "int \<Rightarrow> int \<Rightarrow> Point list \<Rightarrow> bool" where
  "valid_curve width height curve \<longleftrightarrow>
     distinct curve \<and> int (length curve) = width * height \<and> list_all (in_grid width height) curve"

text \<open>The pixel of an image at a point, and the position of a point in the pixel array.\<close>

definition pixel_of :: "Mat \<Rightarrow> Point \<Rightarrow> pixel option" where
  "pixel_of m p = mat_at m (snd p) (fst p)"

definition point_index :: "Mat \<Rightarrow> Point \<Rightarrow> nat" where
  "point_index m p = cell_index m (snd p) (fst p)"

definition same_shape :: "Mat \<Rightarrow> Mat \<Rightarrow> bool" where
  "same_shape a b \<longleftrightarrow> rows a = rows b \<and> cols a = cols b"

text \<open>
  The two indices of \<open>get_indices\<close> at loop index \<open>j\<close> as positions in the curve.
\<close>

definition src_of :: "int \<Rightarrow> int \<Rightarrow> bool \<Rightarrow> nat \<Rightarrow> nat" where
  "src_of offset total' encrypt j = nat (fst (get_indices offset total' (int j) encrypt))"

definition dest_of :: "int \<Rightarrow> int \<Rightarrow> bool \<Rightarrow> nat \<Rightarrow> nat" where
  "dest_of offset total' encrypt j = nat (snd (get_indices offset total' (int j) encrypt))"

text \<open>
  A single write of a pixel into the cell of a point, and the writes that the iterations
  \<open>0, 1, \<dots>, total - 1\<close> of the loop of \<open>copy_pixels\<close> ask for, in that order: iteration \<open>j\<close>
  stores the pixel of the source at \<open>curve[src_idx]\<close> into the cell \<open>curve[dest_idx]\<close>.
\<close>

definition write_pixel :: "Mat \<Rightarrow> Point \<times> pixel \<Rightarrow> Mat" where
  "write_pixel m w = m\<lparr>data := (data m)[point_index m (fst w) := snd w]\<rparr>"

definition loop_writes :: "Mat \<Rightarrow> Point list \<Rightarrow> int \<Rightarrow> int \<Rightarrow> bool \<Rightarrow> (Point \<times> pixel) list" where
  "loop_writes src_img curve total' offset encrypt =
     map (\<lambda>j. (curve ! dest_of offset total' encrypt j,
               data src_img ! point_index src_img (curve ! src_of offset total' encrypt j)))
         [0..<nat total']"

text \<open>Every pixel has as many channel values as the image has channels.\<close>

definition wf_pixels :: "Mat \<Rightarrow> bool" where
  "wf_pixels m \<longleftrightarrow> list_all (\<lambda>px. int (length px) = mat_channels m) (data m)"

text \<open>
  The length of the first part when a length \<open>w\<close> is halved with the adjustment that prefers
  an even length; a call on an axis-parallel rectangle as the tuple of its arguments; and the
  invariant of the calls that \<open>generate_mapping\<close> leads to on a grid of \<open>W\<close> by \<open>H\<close> cells:
  the orthogonal length is at most twice the primary one, the area is at most \<open>INT_MAX\<close>,
  and the rectangle lies in the grid.
\<close>

definition half_len :: "int \<Rightarrow> int" where
  "half_len w = (if odd (w div 2) \<and> w > 2 then w div 2 + 1 else w div 2)"

definition axis_call :: "bool \<Rightarrow> int \<Rightarrow> int \<Rightarrow> int \<Rightarrow> int \<Rightarrow> call" where
  "axis_call horiz x y a b =
     (x, y, if horiz then a else 0, if horiz then 0 else a,
            if horiz then 0 else b, if horiz then b else 0)"

definition bounded_call :: "int \<Rightarrow> int \<Rightarrow> bool \<Rightarrow> int \<Rightarrow> int \<Rightarrow> int \<Rightarrow> int \<Rightarrow> bool" where
  "bounded_call W H horiz x y a b \<longleftrightarrow>
     a \<noteq> 0 \<and> b \<noteq> 0 \<and> \<bar>b\<bar> \<le> 2 * \<bar>a\<bar> \<and> \<bar>a\<bar> * \<bar>b\<bar> \<le> INT_MAX \<and>
     rect horiz x y a b \<subseteq> {0..<W} \<times> {0..<H}"

section \<open>The generator covers the rectangle\<close>

lemma fill_line_eq:
  "fill_line i n x y dx dy cs =
     cs @ map (\<lambda>k. (x + int k * dx, y + int k * dy)) [0..<nat (n - i)]"
proof (induction i n x y dx dy cs rule: fill_line.induct)
  case (1 i n x y dx dy cs)
  show ?case
  proof (cases "i < n")
    case True
    then have n: "nat (n - i) = Suc (nat (n - (i + 1)))" by simp
    have "fill_line i n x y dx dy cs = fill_line (i + 1) n (x + dx) (y + dy) dx dy (cs @ [(x, y)])"
      using True by (subst fill_line.simps) simp
    also have "\<dots> = (cs @ [(x, y)]) @
        map (\<lambda>k. (x + dx + int k * dx, y + dy + int k * dy)) [0..<nat (n - (i + 1))]"
      using 1 True by simp
    also have "\<dots> = cs @ map (\<lambda>k. (x + int k * dx, y + int k * dy)) [0..<nat (n - i)]"
      unfolding n upt_conv_Cons [OF zero_less_Suc] map_Suc_upt [symmetric]
      by (simp add: algebra_simps o_def)
    finally show ?thesis .
  next
    case False
    then show ?thesis by (subst fill_line.simps) simp
  qed
qed

lemma span_split:
  assumes "d2 \<noteq> 0" "sgn d2 = sgn d" "\<bar>d2\<bar> < \<bar>d\<bar>"
  shows "span p d = span p d2 \<union> span (p + d2) (d - d2)"
    and "span p d2 \<inter> span (p + d2) (d - d2) = {}"
  using assms by (auto simp: span_def sgn_if split: if_splits)

lemma span_reverse:
  assumes "e \<noteq> 0" "sgn e = sgn d"
  shows "span (p + (d - sgn d)) (- e) = span (p + d - e) e"
  using assms by (auto simp: span_def sgn_if split: if_splits)

lemma span_unit: "\<bar>d\<bar> = 1 \<Longrightarrow> span p d = {p}"
  by (auto simp: span_def abs_if split: if_splits)

lemma span_line: "d \<noteq> 0 \<Longrightarrow> (\<lambda>k. p + int k * sgn d) ` {0..<nat \<bar>d\<bar>} = span p d"
proof (cases "0 < d")
  case True
  assume "d \<noteq> 0"
  show ?thesis
  proof (intro set_eqI iffI)
    fix q assume "q \<in> (\<lambda>k. p + int k * sgn d) ` {0..<nat \<bar>d\<bar>}"
    then show "q \<in> span p d" using True by (auto simp: span_def)
  next
    fix q assume "q \<in> span p d"
    then have "q = p + int (nat (q - p)) * sgn d" "nat (q - p) \<in> {0..<nat \<bar>d\<bar>}"
      using True by (auto simp: span_def)
    then show "q \<in> (\<lambda>k. p + int k * sgn d) ` {0..<nat \<bar>d\<bar>}" by blast
  qed
next
  case False
  assume "d \<noteq> 0"
  with False have neg: "d < 0" by simp
  show ?thesis
  proof (intro set_eqI iffI)
    fix q assume "q \<in> (\<lambda>k. p + int k * sgn d) ` {0..<nat \<bar>d\<bar>}"
    then show "q \<in> span p d" using neg by (auto simp: span_def)
  next
    fix q assume "q \<in> span p d"
    then have "q = p + int (nat (p - q)) * sgn d" "nat (p - q) \<in> {0..<nat \<bar>d\<bar>}"
      using neg by (auto simp: span_def)
    then show "q \<in> (\<lambda>k. p + int k * sgn d) ` {0..<nat \<bar>d\<bar>}" by blast
  qed
qed

lemma unit_step_sgn: "unit_step a = sgn a"
  by (simp add: unit_step_def sgn_if)

lemma c_div_2: "c_div a 2 = (if 0 \<le> a then a div 2 else - ((- a) div 2))"
  by (auto simp: c_div_def sgn_if)

lemma c_mod_2_nonneg: "0 \<le> a \<Longrightarrow> c_mod a 2 = a mod 2"
  by (simp add: c_mod_def c_div_2 minus_div_mult_eq_mod)


lemma c_div_0 [simp]: "c_div 0 2 = 0"
  by (simp add: c_div_def)

lemma gen_axis_base_h:
  assumes "\<bar>b\<bar> = 1"
  shows "gen_axis horiz x y a b cs =
    Some (fill_line 0 \<bar>a\<bar> x y (if horiz then sgn a else 0) (if horiz then 0 else sgn a) cs)"
  using assms unfolding gen_axis_def
  by (cases horiz) (subst generate2d.simps, simp add: Let_def unit_step_sgn)+

lemma gen_axis_base_w:
  assumes "\<bar>b\<bar> \<noteq> 1" "\<bar>a\<bar> = 1"
  shows "gen_axis horiz x y a b cs =
    Some (fill_line 0 \<bar>b\<bar> x y (if horiz then 0 else sgn b) (if horiz then sgn b else 0) cs)"
  using assms unfolding gen_axis_def
  by (cases horiz) (subst generate2d.simps, simp add: Let_def unit_step_sgn)+

lemma gen_axis_long:
  assumes "\<bar>b\<bar> \<noteq> 1" "\<bar>a\<bar> \<noteq> 1" "2 * \<bar>a\<bar> > 3 * \<bar>b\<bar>"
  shows "gen_axis horiz x y a b cs =
    gen_axis horiz x y (half_adj a) b cs \<bind>
    gen_axis horiz (if horiz then x + half_adj a else x) (if horiz then y else y + half_adj a)
       (a - half_adj a) b"
proof (cases horiz)
  case True
  show ?thesis using assms unfolding gen_axis_def half_adj_def
    by (subst generate2d.simps) (simp add: True Let_def unit_step_sgn)
next
  case False
  show ?thesis using assms unfolding gen_axis_def half_adj_def
    by (subst generate2d.simps) (simp add: False Let_def unit_step_sgn)
qed

lemma gen_axis_square:
  assumes "\<bar>b\<bar> \<noteq> 1" "\<bar>a\<bar> \<noteq> 1" "\<not> 2 * \<bar>a\<bar> > 3 * \<bar>b\<bar>"
  shows "gen_axis horiz x y a b cs =
    gen_axis (\<not> horiz) x y (half_adj b) (c_div a 2) cs \<bind> (\<lambda>c1.
    gen_axis horiz (if horiz then x else x + half_adj b) (if horiz then y + half_adj b else y)
       a (b - half_adj b) c1 \<bind> (\<lambda>c2.
    gen_axis (\<not> horiz)
       (if horiz then x + (a - sgn a) else x + (half_adj b - sgn b))
       (if horiz then y + (half_adj b - sgn b) else y + (a - sgn a))
       (- half_adj b) (- (a - c_div a 2)) c2))"
proof (cases horiz)
  case True
  show ?thesis using assms unfolding gen_axis_def half_adj_def
    by (subst generate2d.simps) (simp add: True Let_def unit_step_sgn)
next
  case False
  show ?thesis using assms unfolding gen_axis_def half_adj_def
    by (subst generate2d.simps) (simp add: False Let_def unit_step_sgn)
qed


lemma c_div_2_props:
  assumes "2 \<le> \<bar>a\<bar>"
  shows "c_div a 2 \<noteq> 0" "sgn (c_div a 2) = sgn a" "\<bar>c_div a 2\<bar> < \<bar>a\<bar>"
        "a - c_div a 2 \<noteq> 0" "sgn (a - c_div a 2) = sgn a" "\<bar>a - c_div a 2\<bar> < \<bar>a\<bar>"
  using assms by (auto simp: c_div_2 sgn_if abs_if split: if_splits)

lemma half_adj_props:
  assumes "2 \<le> \<bar>a\<bar>"
  shows "half_adj a \<noteq> 0" "sgn (half_adj a) = sgn a" "\<bar>half_adj a\<bar> < \<bar>a\<bar>"
        "a - half_adj a \<noteq> 0" "sgn (a - half_adj a) = sgn a" "\<bar>a - half_adj a\<bar> < \<bar>a\<bar>"
proof -
  have *: "half_adj a = c_div a 2 \<or> (half_adj a = c_div a 2 + sgn a \<and> 2 < \<bar>a\<bar> \<and> odd \<bar>c_div a 2\<bar>)"
    by (auto simp: half_adj_def c_mod_2_nonneg odd_iff_mod_2_eq_one)
  show "half_adj a \<noteq> 0" "sgn (half_adj a) = sgn a" "\<bar>half_adj a\<bar> < \<bar>a\<bar>"
        "a - half_adj a \<noteq> 0" "sgn (a - half_adj a) = sgn a" "\<bar>a - half_adj a\<bar> < \<bar>a\<bar>"
    using * assms by (auto simp: c_div_2 sgn_if abs_if split: if_splits elim!: oddE)
qed

lemma tile3:
  assumes "A = A1 \<union> A2" "A1 \<inter> A2 = {}" "B = B1 \<union> B2" "B1 \<inter> B2 = {}"
  shows "A1 \<times> B1 \<union> A \<times> B2 \<union> A2 \<times> B1 = A \<times> B"
    and "(A1 \<times> B1) \<inter> (A \<times> B2) = {}"
    and "(A1 \<times> B1) \<inter> (A2 \<times> B1) = {}"
    and "(A \<times> B2) \<inter> (A2 \<times> B1) = {}"
  using assms by auto

lemma line_h:
  fixes x y :: int and horiz :: bool
  assumes "a \<noteq> 0" "\<bar>b\<bar> = 1"
  defines "ps \<equiv> map (\<lambda>k. (x + int k * (if horiz then sgn a else 0), y + int k * (if horiz then 0 else sgn a))) [0..<nat \<bar>a\<bar>]"
  shows "distinct ps" "set ps = rect horiz x y a b"
proof -
  show "distinct ps" using assms(1)
    by (auto simp: ps_def distinct_map inj_on_def sgn_if)
  have "set ps = (if horiz then span x a \<times> {y} else {x} \<times> span y a)"
    using span_line [OF assms(1), symmetric] by (auto simp: ps_def)
  then show "set ps = rect horiz x y a b"
    by (simp add: rect_def span_unit [OF assms(2)])
qed

lemma line_w:
  fixes x y :: int and horiz :: bool
  assumes "b \<noteq> 0" "\<bar>a\<bar> = 1"
  defines "ps \<equiv> map (\<lambda>k. (x + int k * (if horiz then 0 else sgn b), y + int k * (if horiz then sgn b else 0))) [0..<nat \<bar>b\<bar>]"
  shows "distinct ps" "set ps = rect horiz x y a b"
proof -
  show "distinct ps" using assms(1)
    by (auto simp: ps_def distinct_map inj_on_def sgn_if)
  have "set ps = (if horiz then {x} \<times> span y b else span x b \<times> {y})"
    using span_line [OF assms(1), symmetric] by (auto simp: ps_def)
  then show "set ps = rect horiz x y a b"
    by (simp add: rect_def span_unit [OF assms(2)])
qed


lemma rect_split_long:
  assumes "a2 \<noteq> 0" "sgn a2 = sgn a" "\<bar>a2\<bar> < \<bar>a\<bar>"
  shows "rect horiz x y a2 b \<union>
         rect horiz (if horiz then x + a2 else x) (if horiz then y else y + a2) (a - a2) b =
         rect horiz x y a b"
    and "rect horiz x y a2 b \<inter>
         rect horiz (if horiz then x + a2 else x) (if horiz then y else y + a2) (a - a2) b = {}"
proof -
  note sx = span_split [OF assms, of x] and sy = span_split [OF assms, of y]
  show "rect horiz x y a2 b \<union>
         rect horiz (if horiz then x + a2 else x) (if horiz then y else y + a2) (a - a2) b =
         rect horiz x y a b"
    using sx(1) sy(1) by (auto simp: rect_def)
  show "rect horiz x y a2 b \<inter>
         rect horiz (if horiz then x + a2 else x) (if horiz then y else y + a2) (a - a2) b = {}"
    using sx(2) sy(2) by (auto simp: rect_def)
qed

lemma rect_split_square:
  fixes x y :: int and horiz :: bool
  assumes a2: "a2 \<noteq> 0" "sgn a2 = sgn a" "\<bar>a2\<bar> < \<bar>a\<bar>"
      and b2: "b2 \<noteq> 0" "sgn b2 = sgn b" "\<bar>b2\<bar> < \<bar>b\<bar>"
  defines "R1 \<equiv> rect (\<not> horiz) x y b2 a2"
      and "R2 \<equiv> rect horiz (if horiz then x else x + b2) (if horiz then y + b2 else y) a (b - b2)"
      and "R3 \<equiv> rect (\<not> horiz)
                 (if horiz then x + (a - sgn a) else x + (b2 - sgn b))
                 (if horiz then y + (b2 - sgn b) else y + (a - sgn a))
                 (- b2) (- (a - a2))"
  shows "R1 \<union> R2 \<union> R3 = rect horiz x y a b"
    and "R1 \<inter> R2 = {}" and "R1 \<inter> R3 = {}" and "R2 \<inter> R3 = {}"
proof -
  have ne: "a - a2 \<noteq> 0" "sgn (a - a2) = sgn a"
    using a2 by (auto simp: sgn_if abs_if split: if_splits)
  have ra: "span (p + (a - sgn a)) (a2 - a) = span (p + a2) (a - a2)" for p
    using span_reverse [OF ne, of p] by simp
  have rb: "span (p + (b2 - sgn b)) (- b2) = span p b2" for p
    using span_reverse [OF b2(1) refl, of p] b2(2) by simp
  show "R1 \<union> R2 \<union> R3 = rect horiz x y a b"
  proof (cases horiz)
    case True
    show ?thesis
      using tile3(1) [OF span_split [OF a2, of x] span_split [OF b2, of y]]
      by (simp add: True R1_def R2_def R3_def rect_def ra rb)
  next
    case False
    have "span x b2 \<times> span y a2 \<union> span (x + b2) (b - b2) \<times> span y a \<union> span x b2 \<times> span (y + a2) (a - a2)
        = span x b \<times> span y a"
      using tile3(1) [OF span_split [OF a2, of y] span_split [OF b2, of x]] by auto
    then show ?thesis
      by (simp add: False R1_def R2_def R3_def rect_def ra rb)
  qed
  show "R1 \<inter> R2 = {}"
  proof (cases horiz)
    case True
    show ?thesis
      using tile3(2) [OF span_split [OF a2, of x] span_split [OF b2, of y]]
      by (simp add: True R1_def R2_def rect_def)
  next
    case False
    have "span x b2 \<times> span y a2 \<inter> span (x + b2) (b - b2) \<times> span y a = {}"
      using tile3(2) [OF span_split [OF a2, of y] span_split [OF b2, of x]] by auto
    then show ?thesis
      by (simp add: False R1_def R2_def rect_def)
  qed
  show "R1 \<inter> R3 = {}"
  proof (cases horiz)
    case True
    show ?thesis
      using tile3(3) [OF span_split [OF a2, of x] span_split [OF b2, of y]]
      by (simp add: True R1_def R3_def rect_def ra rb)
  next
    case False
    have "span x b2 \<times> span y a2 \<inter> span x b2 \<times> span (y + a2) (a - a2) = {}"
      using tile3(3) [OF span_split [OF a2, of y] span_split [OF b2, of x]] by auto
    then show ?thesis
      by (simp add: False R1_def R3_def rect_def ra rb)
  qed
  show "R2 \<inter> R3 = {}"
  proof (cases horiz)
    case True
    show ?thesis
      using tile3(4) [OF span_split [OF a2, of x] span_split [OF b2, of y]]
      by (simp add: True R2_def R3_def rect_def ra rb)
  next
    case False
    have "span (x + b2) (b - b2) \<times> span y a \<inter> span x b2 \<times> span (y + a2) (a - a2) = {}"
      using tile3(4) [OF span_split [OF a2, of y] span_split [OF b2, of x]] by auto
    then show ?thesis
      by (simp add: False R2_def R3_def rect_def ra rb)
  qed
qed

lemma measure_lt:
  fixes p r A B :: int
  assumes "0 \<le> p" "0 \<le> r" "p \<le> A" "r \<le> B" "p < A \<or> r < B"
  shows "nat (p + r) < nat (A + B)"
  using assms by linarith

lemma measure_lt_swap:
  fixes p r A B :: int
  assumes "0 \<le> p" "0 \<le> r" "p < B" "r < A"
  shows "nat (p + r) < nat (A + B)"
  using assms by linarith

lemma gen_axis_covers:
  "a \<noteq> 0 \<Longrightarrow> b \<noteq> 0 \<Longrightarrow>
   \<exists>ps. gen_axis horiz x y a b cs = Some (cs @ ps) \<and> distinct ps \<and> set ps = rect horiz x y a b"
proof (induction "nat (\<bar>a\<bar> + \<bar>b\<bar>)" arbitrary: horiz x y a b cs rule: less_induct)
  case less
  note IH = less.hyps and nz = less.prems
  consider (h1) "\<bar>b\<bar> = 1"
    | (w1) "\<bar>b\<bar> \<noteq> 1" "\<bar>a\<bar> = 1"
    | (long) "\<bar>b\<bar> \<noteq> 1" "\<bar>a\<bar> \<noteq> 1" "2 * \<bar>a\<bar> > 3 * \<bar>b\<bar>"
    | (square) "\<bar>b\<bar> \<noteq> 1" "\<bar>a\<bar> \<noteq> 1" "\<not> 2 * \<bar>a\<bar> > 3 * \<bar>b\<bar>"
    by blast
  then show ?case
  proof cases
    case h1
    show ?thesis
      unfolding gen_axis_base_h [OF h1] fill_line_eq
      using line_h [OF nz(1) h1, of x horiz y] by simp
  next
    case w1
    show ?thesis
      unfolding gen_axis_base_w [OF w1] fill_line_eq
      using line_w [OF nz(2) w1(2), of x horiz y] by simp
  next
    case long
    have a2: "2 \<le> \<bar>a\<bar>" using long nz by arith
    note ha = half_adj_props [OF a2]
    let ?x2 = "if horiz then x + half_adj a else x"
    let ?y2 = "if horiz then y else y + half_adj a"
    have m1: "nat (\<bar>half_adj a\<bar> + \<bar>b\<bar>) < nat (\<bar>a\<bar> + \<bar>b\<bar>)"
      by (rule measure_lt) (use ha(3) in simp_all)
    have m2: "nat (\<bar>a - half_adj a\<bar> + \<bar>b\<bar>) < nat (\<bar>a\<bar> + \<bar>b\<bar>)"
      by (rule measure_lt) (use ha(6) in simp_all)
    obtain ps1 where ps1: "gen_axis horiz x y (half_adj a) b cs = Some (cs @ ps1)"
        "distinct ps1" "set ps1 = rect horiz x y (half_adj a) b"
      using IH [OF m1 ha(1) nz(2), of horiz x y cs] by blast
    obtain ps2 where ps2: "gen_axis horiz ?x2 ?y2 (a - half_adj a) b (cs @ ps1) = Some ((cs @ ps1) @ ps2)"
        "distinct ps2" "set ps2 = rect horiz ?x2 ?y2 (a - half_adj a) b"
      using IH [OF m2 ha(4) nz(2), of horiz ?x2 ?y2 "cs @ ps1"] by blast
    note sp = rect_split_long [OF ha(1,2,3), of horiz x y b]
    have "gen_axis horiz x y a b cs = Some (cs @ (ps1 @ ps2))"
      unfolding gen_axis_long [OF long] using ps1(1) ps2(1) by simp
    moreover have "distinct (ps1 @ ps2)"
      using ps1(2,3) ps2(2,3) sp(2) by simp
    moreover have "set (ps1 @ ps2) = rect horiz x y a b"
      using ps1(3) ps2(3) sp(1) by simp
    ultimately show ?thesis by blast
  next
    case square
    have a2: "2 \<le> \<bar>a\<bar>" and b2: "2 \<le> \<bar>b\<bar>" using square nz by arith+
    note hb = half_adj_props [OF b2] and da = c_div_2_props [OF a2]
    let ?x2 = "if horiz then x else x + half_adj b"
    let ?y2 = "if horiz then y + half_adj b else y"
    let ?x3 = "if horiz then x + (a - sgn a) else x + (half_adj b - sgn b)"
    let ?y3 = "if horiz then y + (half_adj b - sgn b) else y + (a - sgn a)"
    have m1: "nat (\<bar>half_adj b\<bar> + \<bar>c_div a 2\<bar>) < nat (\<bar>a\<bar> + \<bar>b\<bar>)"
      by (rule measure_lt_swap) (use hb(3) da(3) in simp_all)
    have m2: "nat (\<bar>a\<bar> + \<bar>b - half_adj b\<bar>) < nat (\<bar>a\<bar> + \<bar>b\<bar>)"
      by (rule measure_lt) (use hb(6) in simp_all)
    have m3: "nat (\<bar>- half_adj b\<bar> + \<bar>- (a - c_div a 2)\<bar>) < nat (\<bar>a\<bar> + \<bar>b\<bar>)"
      by (rule measure_lt_swap) (use hb(3) da(6) in simp_all)
    have n3: "- half_adj b \<noteq> 0" "- (a - c_div a 2) \<noteq> 0"
      using hb(1) da(4) by simp_all
    obtain ps1 where ps1: "gen_axis (\<not> horiz) x y (half_adj b) (c_div a 2) cs = Some (cs @ ps1)"
        "distinct ps1" "set ps1 = rect (\<not> horiz) x y (half_adj b) (c_div a 2)"
      using IH [OF m1 hb(1) da(1), of "\<not> horiz" x y cs] by blast
    obtain ps2 where ps2: "gen_axis horiz ?x2 ?y2 a (b - half_adj b) (cs @ ps1) = Some ((cs @ ps1) @ ps2)"
        "distinct ps2" "set ps2 = rect horiz ?x2 ?y2 a (b - half_adj b)"
      using IH [OF m2 nz(1) hb(4), of horiz ?x2 ?y2 "cs @ ps1"] by blast
    obtain ps3 where ps3: "gen_axis (\<not> horiz) ?x3 ?y3 (- half_adj b) (- (a - c_div a 2)) ((cs @ ps1) @ ps2)
          = Some (((cs @ ps1) @ ps2) @ ps3)"
        "distinct ps3" "set ps3 = rect (\<not> horiz) ?x3 ?y3 (- half_adj b) (- (a - c_div a 2))"
      using IH [OF m3 n3, of "\<not> horiz" ?x3 ?y3 "(cs @ ps1) @ ps2"] by blast
    note sp = rect_split_square [OF da(1,2,3) hb(1,2,3), of horiz x y]
    have "gen_axis horiz x y a b cs = Some (cs @ (ps1 @ ps2 @ ps3))"
      unfolding gen_axis_square [OF square] using ps1(1) ps2(1) ps3(1) by simp
    moreover have "distinct (ps1 @ ps2 @ ps3)"
      using ps1(2,3) ps2(2,3) ps3(2,3) sp(2,3,4) by (simp add: Int_Un_distrib)
    moreover have "set (ps1 @ ps2 @ ps3) = rect horiz x y a b"
      using ps1(3) ps2(3) ps3(3) sp(1) by (simp add: Un_assoc)
    ultimately show ?thesis by blast
  qed
qed

lemma card_span: "card (span p d) = nat \<bar>d\<bar>"
  by (simp add: span_def)

lemma finite_span: "finite (span p d)"
  by (simp add: span_def)

lemma card_rect: "card (rect horiz x y a b) = nat (\<bar>a\<bar> * \<bar>b\<bar>)"
  by (simp add: rect_def card_cartesian_product card_span nat_mult_distrib mult.commute)

lemma gen_axis_length:
  assumes "a \<noteq> 0" "b \<noteq> 0"
  shows "\<exists>ps. gen_axis horiz x y a b cs = Some (cs @ ps) \<and> distinct ps \<and>
              set ps = rect horiz x y a b \<and> length ps = nat (\<bar>a\<bar> * \<bar>b\<bar>)"
proof -
  obtain ps where ps: "gen_axis horiz x y a b cs = Some (cs @ ps)" "distinct ps"
      "set ps = rect horiz x y a b"
    using gen_axis_covers [OF assms] by blast
  have "length ps = card (set ps)" using ps(2) by (simp add: distinct_card)
  then have "length ps = nat (\<bar>a\<bar> * \<bar>b\<bar>)" by (simp add: ps(3) card_rect)
  with ps show ?thesis by blast
qed

lemma generate_mapping_curve:
  assumes "1 \<le> width" "1 \<le> height"
  shows "\<exists>curve. generate_mapping width height = Some ([], curve) \<and>
           length curve = nat (width * height) \<and> distinct curve \<and>
           set curve = {0..<width} \<times> {0..<height}"
proof (cases "width \<ge> height")
  case True
  obtain ps where ps: "gen_axis True 0 0 width height [] = Some ([] @ ps)" "distinct ps"
      "set ps = rect True 0 0 width height" "length ps = nat (\<bar>width\<bar> * \<bar>height\<bar>)"
    using gen_axis_length [of width height True 0 0 "[]"] assms by auto
  have len: "int (length ps) = width * height" using ps(4) assms by simp
  have "generate_mapping width height = Some ([], ps)"
    using ps(1) assms True len by (simp add: generate_mapping_def gen_axis_def)
  moreover have "set ps = {0..<width} \<times> {0..<height}"
    using ps(3) assms by (simp add: rect_def span_def)
  ultimately show ?thesis using ps(2,4) assms by auto
next
  case False
  obtain ps where ps: "gen_axis False 0 0 height width [] = Some ([] @ ps)" "distinct ps"
      "set ps = rect False 0 0 height width" "length ps = nat (\<bar>height\<bar> * \<bar>width\<bar>)"
    using gen_axis_length [of height width False 0 0 "[]"] assms by auto
  have len: "int (length ps) = width * height" using ps(4) assms by (simp add: mult.commute)
  have "generate_mapping width height = Some ([], ps)"
    using ps(1) assms False len by (simp add: generate_mapping_def gen_axis_def)
  moreover have "set ps = {0..<width} \<times> {0..<height}"
    using ps(3) assms by (simp add: rect_def span_def)
  ultimately show ?thesis using ps(2,4) assms by (auto simp: mult.commute)
qed

lemma count_list_distinct:
  "distinct xs \<Longrightarrow> x \<in> set xs \<Longrightarrow> count_list xs x = 1"
  by (induction xs) auto

text \<open>
  Claim C1. For every width and height of at least one whose product the source can compute,
  that is \<open>width * height \<le> INT_MAX\<close>, \<open>generate_mapping\<close> returns, without logging an
  error, a curve of exactly \<open>width * height\<close> coordinates in which every cell \<open>(x, y)\<close> with
  \<open>0 \<le> x < width\<close> and \<open>0 \<le> y < height\<close> occurs exactly once and no other coordinate
  occurs. Under this bound no value of \<open>generate2d\<close> leaves \<open>int\<close> either
  (\<open>generate2d_no_overflow\<close> below).
\<close>

theorem C1_curve_is_permutation_of_cells:
  assumes "1 \<le> width" "1 \<le> height" "width * height \<le> INT_MAX"
  shows "\<exists>curve. generate_mapping width height = Some ([], curve) \<and>
           length curve = nat (width * height) \<and> distinct curve \<and>
           set curve = {0..<width} \<times> {0..<height} \<and>
           (\<forall>x y. 0 \<le> x \<and> x < width \<and> 0 \<le> y \<and> y < height \<longrightarrow> count_list curve (x, y) = 1)"
proof -
  obtain curve where c: "generate_mapping width height = Some ([], curve)"
      "length curve = nat (width * height)" "distinct curve"
      "set curve = {0..<width} \<times> {0..<height}"
    using generate_mapping_curve [OF assms(1,2)] by blast
  have "count_list curve (x, y) = 1" if "0 \<le> x \<and> x < width \<and> 0 \<le> y \<and> y < height" for x y
  proof -
    have "(x, y) \<in> set curve" using that c(4) by simp
    then show ?thesis using c(3) by (simp add: count_list_distinct)
  qed
  with c show ?thesis by blast
qed

theorem C1_curve_is_permutation_of_cells_witness:
  "\<exists>curve. generate_mapping 3 2 = Some ([], curve) \<and>
           length curve = 6 \<and> distinct curve \<and>
           set curve = {0..<3} \<times> {0..<2} \<and>
           (\<forall>x y. 0 \<le> x \<and> x < 3 \<and> 0 \<le> y \<and> y < 2 \<longrightarrow> count_list curve (x, y) = 1)"
  using C1_curve_is_permutation_of_cells [of 3 2] by (simp add: INT_MAX_def)

text \<open>
  Claim C6. When the width or the height is not positive, \<open>generate_mapping\<close> reports the
  invalid dimensions and returns the empty vector: no coordinate at all, never a part of a
  curve.
\<close>

theorem C6_invalid_dimensions:
  assumes "width \<le> 0 \<or> height \<le> 0"
  shows "generate_mapping width height = Some ([InvalidDimensions width height], [])"
  using assms by (simp add: generate_mapping_def)

theorem C6_invalid_dimensions_witness:
  "generate_mapping 0 5 = Some ([InvalidDimensions 0 5], []) \<and>
   generate_mapping 4 (- 1) = Some ([InvalidDimensions 4 (- 1)], [])"
  using C6_invalid_dimensions [of 0 5] C6_invalid_dimensions [of 4 "- 1"] by simp

section \<open>Termination of the generator\<close>




lemma calls_axis:
  "generate2d_calls x y (if horiz then a else 0) (if horiz then 0 else a)
                        (if horiz then 0 else b) (if horiz then b else 0) =
    (if \<bar>b\<bar> = 1 \<or> \<bar>a\<bar> = 1 then []
     else if 2 * \<bar>a\<bar> > 3 * \<bar>b\<bar> then
       [(x, y, if horiz then half_adj a else 0, if horiz then 0 else half_adj a,
               if horiz then 0 else b, if horiz then b else 0),
        (if horiz then x + half_adj a else x, if horiz then y else y + half_adj a,
               if horiz then a - half_adj a else 0, if horiz then 0 else a - half_adj a,
               if horiz then 0 else b, if horiz then b else 0)]
     else
       [(x, y, if horiz then 0 else half_adj b, if horiz then half_adj b else 0,
               if horiz then c_div a 2 else 0, if horiz then 0 else c_div a 2),
        (if horiz then x else x + half_adj b, if horiz then y + half_adj b else y,
               if horiz then a else 0, if horiz then 0 else a,
               if horiz then 0 else b - half_adj b, if horiz then b - half_adj b else 0),
        (if horiz then x + (a - sgn a) else x + (half_adj b - sgn b),
         if horiz then y + (half_adj b - sgn b) else y + (a - sgn a),
               if horiz then 0 else - half_adj b, if horiz then - half_adj b else 0,
               if horiz then - (a - c_div a 2) else 0, if horiz then 0 else - (a - c_div a 2))])"
  by (cases horiz) (simp_all add: generate2d_calls_def half_adj_def Let_def unit_step_sgn)








section \<open>No overflow inside the generator\<close>

text \<open>
  On a grid whose number of cells is an \<open>int\<close>, every activation of \<open>generate2d\<close> that
  \<open>generate_mapping\<close> leads to computes values within \<open>int\<close> only, so that the model and the
  source compute the same there. The lemmas first bound the values of one activation on a
  rectangle inside the grid, then show that the invariant passes from a call to its
  recursive calls.
\<close>

lemma half_len_range: "w div 2 \<le> half_len w" "half_len w \<le> w div 2 + 1"
  by (simp_all add: half_len_def)

lemma div2_range: "2 * (w div 2) \<le> w" "w \<le> 2 * (w div 2) + 1" for w :: int
  by linarith+

lemma half_len_bounds:
  assumes "2 \<le> w"
  shows "0 < half_len w" "half_len w < w" "0 < w div 2" "w div 2 < w"
proof -
  show d: "0 < w div 2" "w div 2 < w" using assms by linarith+
  show "0 < half_len w" using d half_len_range(1) [of w] by linarith
  show "half_len w < w"
  proof (cases "w = 2")
    case True
    then show ?thesis by (simp add: half_len_def)
  next
    case False
    then show ?thesis using assms half_len_range(2) [of w] div2_range [of w] by linarith
  qed
qed

lemma aspect_long_lin:
  fixes w h k hl :: int
  assumes "2 \<le> h" "2 * w > 3 * h" "k \<le> hl" "hl \<le> k + 1" "2 * k \<le> w" "w \<le> 2 * k + 1"
  shows "h \<le> 2 * hl" "h \<le> 2 * (w - hl)"
  using assms by presburger+

lemma aspect_long:
  assumes "2 \<le> w" "2 \<le> h" "2 * w > 3 * h"
  shows "h \<le> 2 * half_len w" "h \<le> 2 * (w - half_len w)"
  using aspect_long_lin [OF assms(2,3) half_len_range [of w] div2_range [of w]] .

lemma aspect_square_lin:
  fixes w h k m hl :: int
  assumes "2 \<le> w" "2 \<le> h" "2 * w \<le> 3 * h" "h \<le> 2 * w"
    "m \<le> hl" "hl \<le> m + 1" "2 * m \<le> h" "h \<le> 2 * m + 1" "2 * k \<le> w" "w \<le> 2 * k + 1"
  shows "k \<le> 2 * hl" "h - hl \<le> 2 * w" "w - k \<le> 2 * hl"
  using assms by presburger+

lemma aspect_square:
  assumes "2 \<le> w" "2 \<le> h" "\<not> 2 * w > 3 * h" "h \<le> 2 * w"
  shows "w div 2 \<le> 2 * half_len h" "h - half_len h \<le> 2 * w" "w - w div 2 \<le> 2 * half_len h"
proof -
  have "2 * w \<le> 3 * h" using assms(3) by simp
  from aspect_square_lin [OF assms(1,2) this assms(4) half_len_range [of h] div2_range [of h]
      div2_range [of w]]
  show "w div 2 \<le> 2 * half_len h" "h - half_len h \<le> 2 * w" "w - w div 2 \<le> 2 * half_len h" .
qed

lemma c_div_2_sgn: "c_div a 2 = sgn a * (\<bar>a\<bar> div 2)"
  by (simp add: c_div_def)

lemma half_adj_sgn: "half_adj a = sgn a * half_len (abs a)"
proof -
  have "\<bar>c_div a 2\<bar> = \<bar>a\<bar> div 2"
    by (cases "a = 0") (simp_all add: c_div_2_sgn abs_mult)
  then have "c_mod \<bar>c_div a 2\<bar> 2 \<noteq> 0 \<longleftrightarrow> odd (\<bar>a\<bar> div 2)"
    by (simp add: c_mod_2_nonneg odd_iff_mod_2_eq_one)
  then show ?thesis
    by (simp add: half_adj_def half_len_def c_div_2_sgn algebra_simps)
qed

lemma abs_sgn_diff:
  fixes a k :: int
  assumes "0 \<le> k" "k \<le> \<bar>a\<bar>"
  shows "\<bar>sgn a * k\<bar> = k" "\<bar>a - sgn a * k\<bar> = \<bar>a\<bar> - k"
  using assms by (auto simp: sgn_if abs_if)

lemma abs_half_adj:
  assumes "2 \<le> \<bar>a\<bar>"
  shows "\<bar>half_adj a\<bar> = half_len (abs a)" "\<bar>a - half_adj a\<bar> = \<bar>a\<bar> - half_len (abs a)"
    "\<bar>c_div a 2\<bar> = \<bar>a\<bar> div 2" "\<bar>a - c_div a 2\<bar> = \<bar>a\<bar> - \<bar>a\<bar> div 2"
proof -
  note b = half_len_bounds [OF assms]
  show "\<bar>half_adj a\<bar> = half_len (abs a)" "\<bar>a - half_adj a\<bar> = \<bar>a\<bar> - half_len (abs a)"
    unfolding half_adj_sgn using b(1,2) by (simp_all add: abs_sgn_diff)
  show "\<bar>c_div a 2\<bar> = \<bar>a\<bar> div 2" "\<bar>a - c_div a 2\<bar> = \<bar>a\<bar> - \<bar>a\<bar> div 2"
    unfolding c_div_2_sgn using b(3,4) by (simp_all add: abs_sgn_diff)
qed

lemma span_bounds:
  assumes "a \<noteq> 0" "span x a \<subseteq> {0..<W}"
  shows "0 \<le> x" "x < W" "0 \<le> x + (a - sgn a)" "x + (a - sgn a) < W" "\<bar>a\<bar> \<le> W"
proof -
  have "x \<in> span x a" "x + (a - sgn a) \<in> span x a"
    using assms(1) by (auto simp: span_def sgn_if)
  then have "x \<in> {0..<W}" "x + (a - sgn a) \<in> {0..<W}" using assms(2) by blast+
  then show "0 \<le> x" "x < W" "0 \<le> x + (a - sgn a)" "x + (a - sgn a) < W" by simp_all
  then show "\<bar>a\<bar> \<le> W" using assms(1) by (auto simp: sgn_if abs_if split: if_splits)
qed

lemma values_horiz:
  "set (generate2d_values x y a 0 0 b) \<subseteq>
     {a, \<bar>a\<bar>, b, \<bar>b\<bar>} \<union>
     (if \<bar>b\<bar> = 1 then (\<Union>i \<in> {0..\<bar>a\<bar>}. {i, x + i * sgn a, y})
      else if \<bar>a\<bar> = 1 then (\<Union>i \<in> {0..\<bar>b\<bar>}. {i, x, y + i * sgn b})
      else {0, c_div a 2, \<bar>c_div a 2\<bar>, c_div b 2, \<bar>c_div b 2\<bar>, 2 * \<bar>a\<bar>, 3 * \<bar>b\<bar>} \<union>
        (if 2 * \<bar>a\<bar> > 3 * \<bar>b\<bar>
         then {half_adj a, x + half_adj a, y, a - half_adj a}
         else {half_adj b, x, y, y + half_adj b, b - half_adj b, a - sgn a, x + (a - sgn a),
               half_adj b - sgn b, y + (half_adj b - sgn b), - half_adj b,
               a - c_div a 2, - (a - c_div a 2)}))"
proof (cases "\<bar>b\<bar> = 1")
  case True
  then show ?thesis
    by (simp add: generate2d_values_def Let_def unit_step_sgn)
next
  case b1: False
  show ?thesis
  proof (cases "\<bar>a\<bar> = 1")
    case True
    then show ?thesis using b1
      by (simp add: generate2d_values_def Let_def unit_step_sgn)
  next
    case a1: False
    show ?thesis
    proof (cases "2 * \<bar>a\<bar> > 3 * \<bar>b\<bar>")
      case long: True
      show ?thesis
      proof (cases "c_mod \<bar>c_div a 2\<bar> 2 \<noteq> 0 \<and> \<bar>a\<bar> > 2")
        case True
        then show ?thesis using b1 a1 long
          by (simp add: generate2d_values_def Let_def unit_step_sgn half_adj_def)
      next
        case False
        then show ?thesis using b1 a1 long
          by (simp add: generate2d_values_def Let_def unit_step_sgn half_adj_def)
      qed
    next
      case square: False
      show ?thesis
      proof (cases "c_mod \<bar>c_div b 2\<bar> 2 \<noteq> 0 \<and> \<bar>b\<bar> > 2")
        case True
        then show ?thesis using b1 a1 square
          by (simp add: generate2d_values_def Let_def unit_step_sgn half_adj_def)
      next
        case False
        then show ?thesis using b1 a1 square
          by (simp add: generate2d_values_def Let_def unit_step_sgn half_adj_def)
      qed
    qed
  qed
qed

lemma span_mem:
  assumes "a \<noteq> 0" "0 \<le> k" "k < \<bar>a\<bar>"
  shows "x + sgn a * k \<in> span x a"
  using assms by (auto simp: span_def sgn_if)

lemma in_range_cell:
  assumes "span x a \<subseteq> {0..<W}" "W \<le> INT_MAX" "a \<noteq> 0" "0 \<le> k" "k < \<bar>a\<bar>"
  shows "int_range (x + sgn a * k)"
proof -
  have "x + sgn a * k \<in> {0..<W}" using span_mem [OF assms(3-5)] assms(1) by blast
  then show ?thesis using assms(2) by (simp add: int_range_def INT_MAX_def)
qed

lemma in_range_small:
  assumes "span x a \<subseteq> {0..<W}" "W \<le> INT_MAX" "a \<noteq> 0" "\<bar>v\<bar> \<le> \<bar>a\<bar>"
  shows "int_range v"
proof -
  have "\<bar>a\<bar> \<le> W" using span_bounds(5) [OF assms(3,1)] .
  then have "- INT_MAX \<le> v" "v \<le> INT_MAX" using assms(2,4) by linarith+
  then show ?thesis by (simp add: int_range_def)
qed

lemma in_range_past:
  assumes "span x a \<subseteq> {0..<W}" "W \<le> INT_MAX" "a \<noteq> 0" "0 \<le> i" "i \<le> \<bar>a\<bar>"
  shows "int_range (x + i * sgn a)"
proof (cases "i < \<bar>a\<bar>")
  case True
  then show ?thesis using in_range_cell [OF assms(1-4)] by (simp add: mult.commute)
next
  case False
  then have "i = \<bar>a\<bar>" using assms(5) by simp
  then have e: "x + i * sgn a = x + (a - sgn a) + sgn a"
    by (simp add: sgn_if abs_if)
  have s: "- 1 \<le> sgn a" "sgn a \<le> 1" by (simp_all add: sgn_if)
  have "0 \<le> x + (a - sgn a)" "x + (a - sgn a) < W"
    using span_bounds(3,4) [OF assms(3,1)] .
  then have "- 1 \<le> x + i * sgn a" "x + i * sgn a \<le> INT_MAX"
    unfolding e using s assms(2) by linarith+
  then show ?thesis by (simp add: int_range_def INT_MAX_def)
qed

lemma area_bounds:
  assumes "2 \<le> \<bar>a\<bar>" "2 \<le> \<bar>b\<bar>" "\<bar>b\<bar> \<le> 2 * \<bar>a\<bar>" "\<bar>a\<bar> * \<bar>b\<bar> \<le> INT_MAX"
  shows "int_range (2 * \<bar>a\<bar>)" "int_range (3 * \<bar>b\<bar>)"
proof -
  have "\<bar>a\<bar> * 2 \<le> \<bar>a\<bar> * \<bar>b\<bar>" using assms(2) by (intro mult_left_mono) simp_all
  then have "2 * \<bar>a\<bar> \<le> INT_MAX" using assms(4) by simp
  then show "int_range (2 * \<bar>a\<bar>)" by (simp add: int_range_def)
  have "3 * \<bar>b\<bar> \<le> INT_MAX"
  proof (cases "\<bar>a\<bar> = 2")
    case True
    then have "\<bar>b\<bar> \<le> 4" using assms(3) by simp
    then show ?thesis by (simp add: INT_MAX_def)
  next
    case False
    then have "3 \<le> \<bar>a\<bar>" using assms(1) by simp
    then have "3 * \<bar>b\<bar> \<le> \<bar>a\<bar> * \<bar>b\<bar>" by (intro mult_right_mono) simp_all
    then show ?thesis using assms(4) by linarith
  qed
  then show "int_range (3 * \<bar>b\<bar>)" by (simp add: int_range_def)
qed

lemma range_long:
  assumes a2: "2 \<le> \<bar>a\<bar>" and sx: "span x a \<subseteq> {0..<W}" and W: "W \<le> INT_MAX"
  shows "int_range (half_adj a)" "int_range (x + half_adj a)" "int_range (a - half_adj a)"
    "int_range (- half_adj a)" "int_range (c_div a 2)" "int_range \<bar>c_div a 2\<bar>"
    "int_range (a - c_div a 2)" "int_range (- (a - c_div a 2))" "int_range (a - sgn a)"
    "int_range (x + (a - sgn a))" "int_range (half_adj a - sgn a)"
    "int_range (x + (half_adj a - sgn a))" "int_range a" "int_range \<bar>a\<bar>" "int_range x"
    "int_range 0"
proof -
  have nz: "a \<noteq> 0" using a2 by auto
  note ha = abs_half_adj [OF a2] and la = half_len_bounds [OF a2]
  note small = in_range_small [OF sx W nz] and cell = in_range_cell [OF sx W nz]
  show "int_range (half_adj a)" "int_range (a - half_adj a)" "int_range (- half_adj a)"
    "int_range (c_div a 2)" "int_range \<bar>c_div a 2\<bar>" "int_range (a - c_div a 2)"
    "int_range a" "int_range \<bar>a\<bar>" "int_range 0"
    using la by (simp_all add: small ha)
  have "\<bar>- (a - c_div a 2)\<bar> = \<bar>a\<bar> - \<bar>a\<bar> div 2" unfolding abs_minus by (rule ha(4))
  then have "\<bar>- (a - c_div a 2)\<bar> \<le> \<bar>a\<bar>" using la by linarith
  then show "int_range (- (a - c_div a 2))" by (rule small)
  show "int_range (x + half_adj a)"
    unfolding half_adj_sgn using la by (intro cell) simp_all
  have "\<bar>a - sgn a\<bar> \<le> \<bar>a\<bar>" by (simp add: sgn_if abs_if)
  then show "int_range (a - sgn a)" by (rule small)
  show "int_range (x + (a - sgn a))"
    using span_bounds(3,4) [OF nz sx] W by (simp add: int_range_def INT_MAX_def)
  have e: "half_adj a - sgn a = sgn a * (half_len (abs a) - 1)"
    by (simp add: half_adj_sgn algebra_simps)
  have "\<bar>sgn a * (half_len (abs a) - 1)\<bar> = half_len (abs a) - 1"
    using la(1) nz by (simp add: abs_mult abs_sgn_eq)
  then have "\<bar>sgn a * (half_len (abs a) - 1)\<bar> \<le> \<bar>a\<bar>" using la(2) by linarith
  then show "int_range (half_adj a - sgn a)" unfolding e by (rule small)
  show "int_range (x + (half_adj a - sgn a))"
    unfolding e using la by (intro cell) simp_all
  show "int_range x" using cell [of 0] nz by simp
qed

lemma range_line:
  assumes nz: "a \<noteq> 0" "b \<noteq> 0" and sx: "span x a \<subseteq> {0..<W}" and sy: "span y b \<subseteq> {0..<H}"
    and W: "W \<le> INT_MAX" and H: "H \<le> INT_MAX"
  shows "\<forall>u \<in> {a, \<bar>a\<bar>, b, \<bar>b\<bar>} \<union> (\<Union>i \<in> {0..\<bar>a\<bar>}. {i, x + i * sgn a, y}). int_range u"
proof -
  have "int_range i" "int_range (x + i * sgn a)" if "0 \<le> i" "i \<le> \<bar>a\<bar>" for i
    using that in_range_small [OF sx W nz(1), of i] in_range_past [OF sx W nz(1), of i]
    by simp_all
  moreover have "int_range y" using in_range_cell [OF sy H nz(2), of 0] nz(2) by simp
  moreover have "int_range a" "int_range \<bar>a\<bar>" "int_range b" "int_range \<bar>b\<bar>"
    by (simp_all add: in_range_small [OF sx W nz(1)] in_range_small [OF sy H nz(2)])
  ultimately show ?thesis by simp
qed

lemma values_horiz_in_range:
  assumes nz: "a \<noteq> 0" "b \<noteq> 0" and asp: "\<bar>b\<bar> \<le> 2 * \<bar>a\<bar>" and area: "\<bar>a\<bar> * \<bar>b\<bar> \<le> INT_MAX"
    and sx: "span x a \<subseteq> {0..<W}" and sy: "span y b \<subseteq> {0..<H}"
    and W: "W \<le> INT_MAX" and H: "H \<le> INT_MAX"
  shows "\<forall>v \<in> set (generate2d_values x y a 0 0 b). int_range v"
proof -
  let ?S = "{a, \<bar>a\<bar>, b, \<bar>b\<bar>} \<union>
        (if \<bar>b\<bar> = 1 then (\<Union>i \<in> {0..\<bar>a\<bar>}. {i, x + i * sgn a, y})
         else if \<bar>a\<bar> = 1 then (\<Union>i \<in> {0..\<bar>b\<bar>}. {i, x, y + i * sgn b})
         else {0, c_div a 2, \<bar>c_div a 2\<bar>, c_div b 2, \<bar>c_div b 2\<bar>, 2 * \<bar>a\<bar>, 3 * \<bar>b\<bar>} \<union>
           (if 2 * \<bar>a\<bar> > 3 * \<bar>b\<bar>
            then {half_adj a, x + half_adj a, y, a - half_adj a}
            else {half_adj b, x, y, y + half_adj b, b - half_adj b, a - sgn a, x + (a - sgn a),
                  half_adj b - sgn b, y + (half_adj b - sgn b), - half_adj b,
                  a - c_div a 2, - (a - c_div a 2)}))"
  have "\<forall>u \<in> ?S. int_range u"
  proof (cases "\<bar>b\<bar> = 1")
    case True
    then show ?thesis using range_line [OF nz sx sy W H] by simp
  next
    case b1: False
    show ?thesis
    proof (cases "\<bar>a\<bar> = 1")
      case True
      have "\<forall>u \<in> {b, \<bar>b\<bar>, a, \<bar>a\<bar>} \<union> (\<Union>i \<in> {0..\<bar>b\<bar>}. {i, y + i * sgn b, x}). int_range u"
        by (rule range_line [OF nz(2,1) sy sx H W])
      then show ?thesis using b1 True by simp
    next
      case a1: False
      have a2: "2 \<le> \<bar>a\<bar>" and b2: "2 \<le> \<bar>b\<bar>" using a1 b1 nz by linarith+
      note ra = range_long [OF a2 sx W] and rb = range_long [OF b2 sy H]
        and ar = area_bounds [OF a2 b2 asp area]
      show ?thesis
      proof (cases "2 * \<bar>a\<bar> > 3 * \<bar>b\<bar>")
        case True
        show ?thesis using b1 a1 True by (simp add: ra rb ar)
      next
        case False
        have "int_range (c_div a 2 - a)" using ra(8) by simp
        then show ?thesis using b1 a1 False by (simp add: ra rb ar)
      qed
    qed
  qed
  then show ?thesis using values_horiz [of x y a b] by blast
qed

lemma values_vert:
  "set (generate2d_values x y 0 a b 0) = set (generate2d_values y x a 0 0 b)"
  by (auto simp: generate2d_values_def Let_def)

lemma span_nonempty: "d \<noteq> 0 \<Longrightarrow> span p d \<noteq> {}"
  by (auto simp: span_def)

lemma bounded_call_spans:
  assumes "bounded_call W H horiz x y a b"
  shows "span x (if horiz then a else b) \<subseteq> {0..<W}" "span y (if horiz then b else a) \<subseteq> {0..<H}"
proof -
  from assms have nz: "span x a \<noteq> {}" "span y a \<noteq> {}" "span x b \<noteq> {}" "span y b \<noteq> {}"
    by (simp_all add: bounded_call_def span_nonempty)
  from assms have r: "rect horiz x y a b \<subseteq> {0..<W} \<times> {0..<H}"
    by (simp add: bounded_call_def)
  show "span x (if horiz then a else b) \<subseteq> {0..<W}"
    using r nz by (cases horiz) (auto simp: rect_def)
  show "span y (if horiz then b else a) \<subseteq> {0..<H}"
    using r nz by (cases horiz) (auto simp: rect_def)
qed

lemma bounded_call_values:
  assumes b: "bounded_call W H horiz x y a b" and W: "W \<le> INT_MAX" and H: "H \<le> INT_MAX"
    and c: "axis_call horiz x y a b = (x', y', ax, ay, bx, by)"
  shows "\<forall>v \<in> set (generate2d_values x' y' ax ay bx by). int_range v"
proof (cases horiz)
  case True
  from b have f: "a \<noteq> 0" "b \<noteq> 0" "\<bar>b\<bar> \<le> 2 * \<bar>a\<bar>" "\<bar>a\<bar> * \<bar>b\<bar> \<le> INT_MAX"
    by (simp_all add: bounded_call_def)
  from bounded_call_spans [OF b] True have s: "span x a \<subseteq> {0..<W}" "span y b \<subseteq> {0..<H}"
    by simp_all
  from c True have e: "x' = x" "y' = y" "ax = a" "ay = 0" "bx = 0" "by = b"
    by (simp_all add: axis_call_def)
  show ?thesis unfolding e by (rule values_horiz_in_range [OF f s W H])
next
  case False
  from b have f: "a \<noteq> 0" "b \<noteq> 0" "\<bar>b\<bar> \<le> 2 * \<bar>a\<bar>" "\<bar>a\<bar> * \<bar>b\<bar> \<le> INT_MAX"
    by (simp_all add: bounded_call_def)
  from bounded_call_spans [OF b] False have s: "span y a \<subseteq> {0..<H}" "span x b \<subseteq> {0..<W}"
    by simp_all
  from c False have e: "x' = x" "y' = y" "ax = 0" "ay = a" "bx = b" "by = 0"
    by (simp_all add: axis_call_def)
  show ?thesis unfolding e values_vert by (rule values_horiz_in_range [OF f s H W])
qed

lemma area_le:
  fixes a b a' b' :: int
  assumes "\<bar>a'\<bar> \<le> \<bar>a\<bar>" "\<bar>b'\<bar> \<le> \<bar>b\<bar>" "\<bar>a\<bar> * \<bar>b\<bar> \<le> M"
  shows "\<bar>a'\<bar> * \<bar>b'\<bar> \<le> M" "\<bar>b'\<bar> * \<bar>a'\<bar> \<le> M"
proof -
  have "\<bar>a'\<bar> * \<bar>b'\<bar> \<le> \<bar>a\<bar> * \<bar>b\<bar>" using assms(1,2) by (intro mult_mono) simp_all
  then show "\<bar>a'\<bar> * \<bar>b'\<bar> \<le> M" using assms(3) by simp
  then show "\<bar>b'\<bar> * \<bar>a'\<bar> \<le> M" by (simp add: mult.commute)
qed

lemma calls_axis_long:
  assumes "\<bar>a\<bar> \<noteq> 1" "\<bar>b\<bar> \<noteq> 1" "2 * \<bar>a\<bar> > 3 * \<bar>b\<bar>"
  shows "generate2d_calls x y (if horiz then a else 0) (if horiz then 0 else a)
                        (if horiz then 0 else b) (if horiz then b else 0) =
     [axis_call horiz x y (half_adj a) b,
      axis_call horiz (if horiz then x + half_adj a else x) (if horiz then y else y + half_adj a)
        (a - half_adj a) b]"
  unfolding calls_axis axis_call_def using assms by simp

lemma calls_axis_square:
  assumes "\<bar>a\<bar> \<noteq> 1" "\<bar>b\<bar> \<noteq> 1" "\<not> 2 * \<bar>a\<bar> > 3 * \<bar>b\<bar>"
  shows "generate2d_calls x y (if horiz then a else 0) (if horiz then 0 else a)
                        (if horiz then 0 else b) (if horiz then b else 0) =
     [axis_call (\<not> horiz) x y (half_adj b) (c_div a 2),
      axis_call horiz (if horiz then x else x + half_adj b) (if horiz then y + half_adj b else y)
        a (b - half_adj b),
      axis_call (\<not> horiz) (if horiz then x + (a - sgn a) else x + (half_adj b - sgn b))
        (if horiz then y + (half_adj b - sgn b) else y + (a - sgn a))
        (- half_adj b) (- (a - c_div a 2))]"
  unfolding calls_axis axis_call_def using assms by simp

lemma calls_axis_base:
  assumes "\<bar>a\<bar> = 1 \<or> \<bar>b\<bar> = 1"
  shows "generate2d_calls x y (if horiz then a else 0) (if horiz then 0 else a)
                        (if horiz then 0 else b) (if horiz then b else 0) = []"
  unfolding calls_axis using assms by auto

lemma bounded_call_long:
  assumes b: "bounded_call W H horiz x y a b"
    and a2: "2 \<le> \<bar>a\<bar>" and b2: "2 \<le> \<bar>b\<bar>" and long: "2 * \<bar>a\<bar> > 3 * \<bar>b\<bar>"
  shows "bounded_call W H horiz x y (half_adj a) b"
    "bounded_call W H horiz (if horiz then x + half_adj a else x)
        (if horiz then y else y + half_adj a) (a - half_adj a) b"
proof -
  from b have f: "a \<noteq> 0" "b \<noteq> 0" "\<bar>b\<bar> \<le> 2 * \<bar>a\<bar>" "\<bar>a\<bar> * \<bar>b\<bar> \<le> INT_MAX"
    and r: "rect horiz x y a b \<subseteq> {0..<W} \<times> {0..<H}"
    by (simp_all add: bounded_call_def)
  note pa = half_adj_props [OF a2] and ha = abs_half_adj [OF a2] and la = half_len_bounds [OF a2]
  note asp = aspect_long [OF a2 b2 long]
  note sp = rect_split_long(1) [OF pa(1-3), of horiz x y b]
  have r1: "rect horiz x y (half_adj a) b \<subseteq> {0..<W} \<times> {0..<H}"
    using sp r by blast
  have r2: "rect horiz (if horiz then x + half_adj a else x)
        (if horiz then y else y + half_adj a) (a - half_adj a) b \<subseteq> {0..<W} \<times> {0..<H}"
    using sp r by blast
  have l1: "\<bar>half_adj a\<bar> \<le> \<bar>a\<bar>" "\<bar>a - half_adj a\<bar> \<le> \<bar>a\<bar>"
    using pa(3,6) by simp_all
  have m1: "\<bar>half_adj a\<bar> * \<bar>b\<bar> \<le> INT_MAX"
    by (rule area_le(1) [OF l1(1) order_refl f(4)])
  have m2: "\<bar>a - half_adj a\<bar> * \<bar>b\<bar> \<le> INT_MAX"
    by (rule area_le(1) [OF l1(2) order_refl f(4)])
  have q1: "\<bar>b\<bar> \<le> 2 * \<bar>half_adj a\<bar>" using asp(1) by (simp add: ha)
  have q2: "\<bar>b\<bar> \<le> 2 * \<bar>a - half_adj a\<bar>" using asp(2) by (simp add: ha)
  show "bounded_call W H horiz x y (half_adj a) b"
    unfolding bounded_call_def using pa(1) f(2) q1 m1 r1 by blast
  show "bounded_call W H horiz (if horiz then x + half_adj a else x)
        (if horiz then y else y + half_adj a) (a - half_adj a) b"
    unfolding bounded_call_def using pa(4) f(2) q2 m2 r2 by blast
qed

lemma bounded_call_square:
  assumes b: "bounded_call W H horiz x y a b"
    and a2: "2 \<le> \<bar>a\<bar>" and b2: "2 \<le> \<bar>b\<bar>" and sq: "\<not> 2 * \<bar>a\<bar> > 3 * \<bar>b\<bar>"
  shows "bounded_call W H (\<not> horiz) x y (half_adj b) (c_div a 2)"
    "bounded_call W H horiz (if horiz then x else x + half_adj b)
        (if horiz then y + half_adj b else y) a (b - half_adj b)"
    "bounded_call W H (\<not> horiz) (if horiz then x + (a - sgn a) else x + (half_adj b - sgn b))
        (if horiz then y + (half_adj b - sgn b) else y + (a - sgn a))
        (- half_adj b) (- (a - c_div a 2))"
proof -
  from b have f: "a \<noteq> 0" "b \<noteq> 0" "\<bar>b\<bar> \<le> 2 * \<bar>a\<bar>" "\<bar>a\<bar> * \<bar>b\<bar> \<le> INT_MAX"
    and r: "rect horiz x y a b \<subseteq> {0..<W} \<times> {0..<H}"
    by (simp_all add: bounded_call_def)
  note pb = half_adj_props [OF b2] and ca = c_div_2_props [OF a2]
    and ha = abs_half_adj [OF a2] and hb = abs_half_adj [OF b2]
  note asp = aspect_square [OF a2 b2 sq f(3)]
  note sp = rect_split_square(1) [OF ca(1-3) pb(1-3), of horiz x y]
  have r1: "rect (\<not> horiz) x y (half_adj b) (c_div a 2) \<subseteq> {0..<W} \<times> {0..<H}"
    using sp r by blast
  have r2: "rect horiz (if horiz then x else x + half_adj b)
        (if horiz then y + half_adj b else y) a (b - half_adj b) \<subseteq> {0..<W} \<times> {0..<H}"
    using sp r by blast
  have r3: "rect (\<not> horiz) (if horiz then x + (a - sgn a) else x + (half_adj b - sgn b))
        (if horiz then y + (half_adj b - sgn b) else y + (a - sgn a))
        (- half_adj b) (- (a - c_div a 2)) \<subseteq> {0..<W} \<times> {0..<H}"
    using sp r by blast
  have l: "\<bar>half_adj b\<bar> \<le> \<bar>b\<bar>" "\<bar>b - half_adj b\<bar> \<le> \<bar>b\<bar>" "\<bar>c_div a 2\<bar> \<le> \<bar>a\<bar>"
    "\<bar>a - c_div a 2\<bar> \<le> \<bar>a\<bar>"
    using pb(3,6) ca(3,6) by simp_all
  have m1: "\<bar>half_adj b\<bar> * \<bar>c_div a 2\<bar> \<le> INT_MAX"
    by (rule area_le(2) [OF l(3) l(1) f(4)])
  have m2: "\<bar>a\<bar> * \<bar>b - half_adj b\<bar> \<le> INT_MAX"
    by (rule area_le(1) [OF order_refl l(2) f(4)])
  have m3: "\<bar>- half_adj b\<bar> * \<bar>- (a - c_div a 2)\<bar> \<le> INT_MAX"
    unfolding abs_minus by (rule area_le(2) [OF l(4) l(1) f(4)])
  have q1: "\<bar>c_div a 2\<bar> \<le> 2 * \<bar>half_adj b\<bar>" using asp(1) by (simp add: ha hb)
  have q2: "\<bar>b - half_adj b\<bar> \<le> 2 * \<bar>a\<bar>" using asp(2) by (simp add: hb)
  have q3: "\<bar>- (a - c_div a 2)\<bar> \<le> 2 * \<bar>- half_adj b\<bar>"
    unfolding abs_minus using asp(3) by (simp add: ha hb)
  have n3: "- half_adj b \<noteq> 0" "- (a - c_div a 2) \<noteq> 0" using pb(1) ca(4) by simp_all
  show "bounded_call W H (\<not> horiz) x y (half_adj b) (c_div a 2)"
    unfolding bounded_call_def using pb(1) ca(1) q1 m1 r1 by blast
  show "bounded_call W H horiz (if horiz then x else x + half_adj b)
        (if horiz then y + half_adj b else y) a (b - half_adj b)"
    unfolding bounded_call_def using f(1) pb(4) q2 m2 r2 by blast
  show "bounded_call W H (\<not> horiz) (if horiz then x + (a - sgn a) else x + (half_adj b - sgn b))
        (if horiz then y + (half_adj b - sgn b) else y + (a - sgn a))
        (- half_adj b) (- (a - c_div a 2))"
    unfolding bounded_call_def using n3 q3 m3 r3 by blast
qed

lemma bounded_call_sub:
  assumes b: "bounded_call W H horiz x y a b"
    and c: "axis_call horiz x y a b = (x', y', ax, ay, bx, by)"
    and c': "c' \<in> set (generate2d_calls x' y' ax ay bx by)"
  shows "\<exists>horiz' x2 y2 a2 b2. c' = axis_call horiz' x2 y2 a2 b2 \<and> bounded_call W H horiz' x2 y2 a2 b2"
proof -
  from b have f: "a \<noteq> 0" "b \<noteq> 0" by (simp_all add: bounded_call_def)
  from c have e: "x' = x" "y' = y" "ax = (if horiz then a else 0)" "ay = (if horiz then 0 else a)"
      "bx = (if horiz then 0 else b)" "by = (if horiz then b else 0)"
    by (simp_all add: axis_call_def)
  note m = c' [unfolded e]
  have n1: "\<bar>a\<bar> \<noteq> 1" "\<bar>b\<bar> \<noteq> 1"
    using m calls_axis_base [of a b x y horiz] by auto
  then have a2: "2 \<le> \<bar>a\<bar>" and b2: "2 \<le> \<bar>b\<bar>" using f by linarith+
  show ?thesis
  proof (cases "2 * \<bar>a\<bar> > 3 * \<bar>b\<bar>")
    case True
    from m have "c' = axis_call horiz x y (half_adj a) b \<or>
        c' = axis_call horiz (if horiz then x + half_adj a else x)
               (if horiz then y else y + half_adj a) (a - half_adj a) b"
      unfolding calls_axis_long [OF n1 True] by simp
    then show ?thesis using bounded_call_long [OF b a2 b2 True] by blast
  next
    case False
    from m have "c' = axis_call (\<not> horiz) x y (half_adj b) (c_div a 2) \<or>
        c' = axis_call horiz (if horiz then x else x + half_adj b)
               (if horiz then y + half_adj b else y) a (b - half_adj b) \<or>
        c' = axis_call (\<not> horiz) (if horiz then x + (a - sgn a) else x + (half_adj b - sgn b))
               (if horiz then y + (half_adj b - sgn b) else y + (a - sgn a))
               (- half_adj b) (- (a - c_div a 2))"
      unfolding calls_axis_square [OF n1 False] by simp
    then show ?thesis using bounded_call_square [OF b a2 b2 False] by blast
  qed
qed

lemma first_call_bounded:
  assumes "1 \<le> width" "1 \<le> height" "width * height \<le> INT_MAX"
  shows "\<exists>horiz x y a b. first_call width height = axis_call horiz x y a b \<and>
           bounded_call width height horiz x y a b"
proof (cases "width \<ge> height")
  case True
  have "first_call width height = axis_call True 0 0 width height"
    using True by (simp add: first_call_def axis_call_def)
  moreover have "bounded_call width height True 0 0 width height"
    using assms True by (simp add: bounded_call_def rect_def span_def)
  ultimately show ?thesis by blast
next
  case False
  have "first_call width height = axis_call False 0 0 height width"
    using False by (simp add: first_call_def axis_call_def)
  moreover have "bounded_call width height False 0 0 height width"
    using assms False by (simp add: bounded_call_def rect_def span_def mult.commute)
  ultimately show ?thesis by blast
qed

lemma reaches_bounded:
  assumes "1 \<le> width" "1 \<le> height" "width * height \<le> INT_MAX"
    and "reaches (first_call width height) c"
  shows "\<exists>horiz x y a b. c = axis_call horiz x y a b \<and> bounded_call width height horiz x y a b"
  using assms(4)
proof (induction rule: reaches.induct)
  case start
  show ?case by (rule first_call_bounded [OF assms(1-3)])
next
  case (sub x y ax ay bx "by" c')
  then obtain horiz x0 y0 a b where
    h: "(x, y, ax, ay, bx, by) = axis_call horiz x0 y0 a b" "bounded_call width height horiz x0 y0 a b"
    by blast
  show ?case by (rule bounded_call_sub [OF h(2) h(1) [symmetric] sub.hyps(2)])
qed

lemma side_le_area:
  fixes width height :: int
  assumes "1 \<le> width" "1 \<le> height" "width * height \<le> M"
  shows "width \<le> M" "height \<le> M"
proof -
  have "width * 1 \<le> width * height" using assms(1,2) by (intro mult_left_mono) simp_all
  then show "width \<le> M" using assms(3) by simp
  have "1 * height \<le> width * height" using assms(1,2) by (intro mult_right_mono) simp_all
  then show "height \<le> M" using assms(3) by simp
qed

text \<open>
  \<open>generate_mapping\<close> starts the generator with \<open>first_call\<close>, and in every activation that
  this call leads to, every value computed lies within \<open>int\<close>.
\<close>

lemma generate_mapping_first_call:
  assumes "1 \<le> width" "1 \<le> height"
  shows "generate_mapping width height =
    (case first_call width height of
       (x, y, ax, ay, bx, by) \<Rightarrow> generate2d x y ax ay bx by []) \<bind>
    (\<lambda>coordinates.
       if int (length coordinates) \<noteq> width * height
       then Some ([CoordinateCountMismatch (length coordinates) (width * height)], [])
       else Some ([], coordinates))"
  using assms by (simp add: generate_mapping_def first_call_def)

lemma generate2d_no_overflow:
  assumes "1 \<le> width" "1 \<le> height" "width * height \<le> INT_MAX"
    and "reaches (first_call width height) (x, y, ax, ay, bx, by)"
  shows "\<forall>v \<in> set (generate2d_values x y ax ay bx by). int_range v"
proof -
  obtain horiz x0 y0 a b where
    h: "(x, y, ax, ay, bx, by) = axis_call horiz x0 y0 a b" "bounded_call width height horiz x0 y0 a b"
    using reaches_bounded [OF assms] by blast
  note s = side_le_area [OF assms(1-3)]
  show ?thesis by (rule bounded_call_values [OF h(2) s h(1) [symmetric]])
qed

section \<open>The offset\<close>

lemma bit_length_0 [simp]: "bit_length 0 = 0"
  by (simp add: bit_length.simps)

lemma bit_length_pos: "0 < n \<Longrightarrow> bit_length n = Suc (bit_length (n div 2))"
  by (subst bit_length.simps) simp

lemma bit_length_upper: "n < 2 ^ bit_length n"
proof (induction n rule: bit_length.induct)
  case (1 n)
  show ?case
  proof (cases "n = 0")
    case True
    then show ?thesis by simp
  next
    case False
    then have "n div 2 < 2 ^ bit_length (n div 2)" using 1 by simp
    then have "n < 2 * 2 ^ bit_length (n div 2)" by linarith
    then show ?thesis using False by (simp add: bit_length_pos)
  qed
qed

lemma bit_length_lower: "0 < n \<Longrightarrow> 2 ^ (bit_length n - 1) \<le> n"
proof (induction n rule: bit_length.induct)
  case (1 n)
  show ?case
  proof (cases "n div 2 = 0")
    case True
    with 1(2) have "n = 1" by linarith
    then show ?thesis by (simp add: bit_length_pos)
  next
    case False
    then have pos: "0 < n div 2" by simp
    then have "2 ^ (bit_length (n div 2) - 1) \<le> n div 2" using 1 by simp
    then have "2 * 2 ^ (bit_length (n div 2) - 1) \<le> n" by linarith
    moreover have "bit_length (n div 2) = Suc (bit_length (n div 2) - 1)"
      using pos by (simp add: bit_length_pos)
    ultimately have "2 ^ bit_length (n div 2) \<le> n"
      by (metis power_Suc)
    then show ?thesis using 1(2) by (simp add: bit_length_pos)
  qed
qed

lemma bit_length_le: "n < 2 ^ k \<Longrightarrow> bit_length n \<le> k"
proof (rule ccontr)
  assume lt: "n < 2 ^ k" and "\<not> bit_length n \<le> k"
  then have "k \<le> bit_length n - 1" and pos: "0 < n"
    by (auto intro: Nat.gr0I)
  then have "(2::nat) ^ k \<le> 2 ^ (bit_length n - 1)" by (simp add: power_increasing)
  also have "\<dots> \<le> n" using pos by (rule bit_length_lower)
  finally show False using lt by simp
qed

lemma round_sig53_small: "\<bar>m\<bar> < 2 ^ 53 \<Longrightarrow> round_sig53 m = m"
proof -
  assume "\<bar>m\<bar> < 2 ^ 53"
  then have "nat \<bar>m\<bar> < 2 ^ 53" by (simp add: nat_less_iff)
  then have "bit_length (nat \<bar>m\<bar>) \<le> 53" by (rule bit_length_le)
  then show ?thesis by (simp add: round_sig53_def)
qed

lemma round_sig53_bound:
  assumes "0 \<le> m"
  shows "0 \<le> round_sig53 m" and "2 ^ 53 * round_sig53 m \<le> (2 ^ 53 + 1) * m"
proof -
  define n where "n = nat m"
  define k where "k = bit_length n - 53"
  have m: "m = int n" using assms by (simp add: n_def)
  show "0 \<le> round_sig53 m"
    using assms by (auto simp: round_sig53_def Let_def sgn_if)
  show "2 ^ 53 * round_sig53 m \<le> (2 ^ 53 + 1) * m"
  proof (cases "k = 0")
    case True
    then have "round_sig53 m = m"
      using assms by (simp add: round_sig53_def k_def n_def)
    then show ?thesis using assms by simp
  next
    case False
    then have bl: "bit_length n = k + 53" and npos: "0 < n"
      by (auto simp: k_def intro: Nat.gr0I)
    define q where "q = n div 2 ^ k"
    define r where "r = n mod 2 ^ k"
    define q' where "q' = (if 2 * r > 2 ^ k \<or> (2 * r = 2 ^ k \<and> odd q) then q + 1 else q)"
    have nqr: "n = q * 2 ^ k + r" unfolding q_def r_def by (rule div_mult_mod_eq [symmetric])
    have low: "2 ^ (k + 52) \<le> n" using bit_length_lower [OF npos] by (simp add: bl add.commute)
    have nm: "nat \<bar>m\<bar> = n" and sm: "sgn m = 1"
      using npos by (simp_all add: m)
    have R: "round_sig53 m = int (q' * 2 ^ k)"
      using False by (simp add: round_sig53_def Let_def nm sm bl q'_def q_def r_def)
    have up: "2 * (q' * 2 ^ k) \<le> 2 * n + 2 ^ k"
      by (auto simp: q'_def nqr algebra_simps)
    have "2 ^ 53 * (2 * (q' * 2 ^ k)) \<le> 2 ^ 53 * (2 * n + 2 ^ k)"
      using up by (rule mult_le_mono2)
    also have "\<dots> = 2 ^ 53 * (2 * n) + 2 * 2 ^ (k + 52)"
      by (simp add: algebra_simps power_add)
    also have "\<dots> \<le> 2 ^ 53 * (2 * n) + 2 * n"
      using low by simp
    finally have "2 ^ 53 * (q' * 2 ^ k) \<le> (2 ^ 53 + 1) * n" by simp
    then have "int (2 ^ 53 * (q' * 2 ^ k)) \<le> int ((2 ^ 53 + 1) * n)"
      by (rule iffD2 [OF of_nat_le_iff])
    then show ?thesis unfolding R by (simp add: m)
  qed
qed

lemma golden_ratio_value: "golden_ratio = \<lparr>mantissa = 347922205179541, exponent = - 49\<rparr>"
proof -
  have "round_sig53 1 = 1" by (rule round_sig53_small) simp
  moreover have "round_sig53 347922205179541 = 347922205179541"
    by (rule round_sig53_small) simp
  ultimately show ?thesis
    by (simp add: golden_ratio_def double_div2_def double_sub_def double_of_int_def sqrt_5_def)
qed

lemma golden_offset_nonneg_eq:
  assumes "0 \<le> t"
  shows "golden_offset t = (round_sig53 (347922205179541 * round_sig53 t) + 2 ^ 48) div 2 ^ 49"
proof -
  have "0 \<le> round_sig53 t" using assms by (rule round_sig53_bound)
  then have "0 \<le> 347922205179541 * round_sig53 t" by simp
  then have nn: "0 \<le> round_sig53 (347922205179541 * round_sig53 t)" by (rule round_sig53_bound)
  show ?thesis
  proof (cases "round_sig53 (347922205179541 * round_sig53 t) = 0")
    case True
    then show ?thesis
      by (simp add: golden_offset_def golden_ratio_value double_mul_def double_of_int_def
          c_round_def)
  next
    case False
    with nn have "0 < round_sig53 (347922205179541 * round_sig53 t)" by simp
    then show ?thesis
      by (simp add: golden_offset_def golden_ratio_value double_mul_def double_of_int_def
          c_round_def)
  qed
qed

lemma golden_offset_small:
  assumes "0 \<le> t" "t < 16"
  shows "golden_offset t = (347922205179541 * t + 2 ^ 48) div 2 ^ 49"
proof -
  have "round_sig53 t = t" using assms by (intro round_sig53_small) simp
  moreover have "round_sig53 (347922205179541 * t) = 347922205179541 * t"
    using assms by (intro round_sig53_small) simp
  ultimately show ?thesis using golden_offset_nonneg_eq [OF assms(1)] by simp
qed

lemma golden_offset_1: "golden_offset 1 = 1"
  by (simp add: golden_offset_small)

lemma golden_offset_2: "golden_offset 2 = 1"
  by (simp add: golden_offset_small)

lemma golden_offset_9: "golden_offset 9 = 6"
  by (simp add: golden_offset_small)

lemma golden_offset_range:
  assumes "1 \<le> t"
  shows "0 \<le> golden_offset t" "golden_offset t \<le> t" "2 \<le> t \<Longrightarrow> golden_offset t < t"
proof -
  define T where "T = round_sig53 t"
  define R where "R = round_sig53 (347922205179541 * T)"
  have t0: "0 \<le> t" using assms by simp
  have T: "0 \<le> T" "2 ^ 53 * T \<le> (2 ^ 53 + 1) * t"
    unfolding T_def using round_sig53_bound [OF t0] by blast+
  have "0 \<le> 347922205179541 * T" using T(1) by simp
  then have R: "0 \<le> R" "2 ^ 53 * R \<le> (2 ^ 53 + 1) * (347922205179541 * T)"
    unfolding R_def using round_sig53_bound by blast+
  have eq: "golden_offset t = (R + 2 ^ 48) div 2 ^ 49"
    unfolding R_def T_def by (rule golden_offset_nonneg_eq [OF t0])
  show "0 \<le> golden_offset t" unfolding eq using R(1) by simp
  define d where "d = (R + 2 ^ 48) div 2 ^ 49"
  have "R + 2 ^ 48 = 2 ^ 49 * d + (R + 2 ^ 48) mod 2 ^ 49"
    unfolding d_def by (rule mult_div_mod_eq [symmetric])
  moreover have "0 \<le> (R + 2 ^ 48) mod 2 ^ 49" by simp
  ultimately have d: "2 ^ 49 * d \<le> R + 2 ^ 48" by linarith
  have "R + 2 ^ 48 < (t + 1) * 2 ^ 49" using R T assms by simp
  with d show "golden_offset t \<le> t" unfolding eq d_def [symmetric] by simp
  assume "2 \<le> t"
  then have "R + 2 ^ 48 < t * 2 ^ 49" using R T by simp
  with d show "golden_offset t < t" unfolding eq d_def [symmetric] by simp
qed

lemma sqrt_5_nearest:
  "\<bar>sqrt 5 - real_of_int (mantissa sqrt_5) / 2 ^ nat (- exponent sqrt_5)\<bar> < 1 / 2 ^ 52"
proof -
  have "(10070354910243151 / 2 ^ 52 :: real)\<^sup>2 < 5"
    by (simp add: power2_eq_square)
  then have lo: "10070354910243151 / 2 ^ 52 < sqrt 5" by (rule real_less_rsqrt)
  have "(5 :: real) < (10070354910243153 / 2 ^ 52)\<^sup>2"
    by (simp add: power2_eq_square)
  then have hi: "sqrt 5 < 10070354910243153 / 2 ^ 52" by (intro real_less_lsqrt) simp_all
  have v: "real_of_int (mantissa sqrt_5) / 2 ^ nat (- exponent sqrt_5) = 629397181890197 / 2 ^ 48"
    by (simp add: sqrt_5_def)
  show ?thesis unfolding v abs_less_iff using lo hi by simp
qed


lemma round_sig53_lower:
  assumes "0 \<le> m"
  shows "(2 ^ 53 - 1) * m \<le> 2 ^ 53 * round_sig53 m"
proof -
  define n where "n = nat m"
  define k where "k = bit_length n - 53"
  have m: "m = int n" using assms by (simp add: n_def)
  show ?thesis
  proof (cases "k = 0")
    case True
    then have "round_sig53 m = m"
      using assms by (simp add: round_sig53_def k_def n_def)
    then show ?thesis using assms by simp
  next
    case False
    then have bl: "bit_length n = k + 53" and npos: "0 < n"
      by (auto simp: k_def intro: Nat.gr0I)
    define q where "q = n div 2 ^ k"
    define r where "r = n mod 2 ^ k"
    define q' where "q' = (if 2 * r > 2 ^ k \<or> (2 * r = 2 ^ k \<and> odd q) then q + 1 else q)"
    have nqr: "n = q * 2 ^ k + r" unfolding q_def r_def by (rule div_mult_mod_eq [symmetric])
    have low: "2 ^ (k + 52) \<le> n"
      using bit_length_lower [OF npos] by (simp add: bl add.commute)
    have nm: "nat \<bar>m\<bar> = n" and sm: "sgn m = 1"
      using npos by (simp_all add: m)
    have R: "round_sig53 m = int (q' * 2 ^ k)"
      using False by (simp add: round_sig53_def Let_def nm sm bl q'_def q_def r_def)
    have rk: "r < 2 ^ k" unfolding r_def by simp
    have dn: "2 * n \<le> 2 * (q' * 2 ^ k) + 2 ^ k"
      using rk by (auto simp: q'_def nqr algebra_simps)
    have "2 ^ 53 * (2 * n) \<le> 2 ^ 53 * (2 * (q' * 2 ^ k) + 2 ^ k)"
      using dn by (rule mult_le_mono2)
    also have "\<dots> = 2 ^ 53 * (2 * (q' * 2 ^ k)) + 2 * 2 ^ (k + 52)"
      by (simp add: algebra_simps power_add)
    also have "\<dots> \<le> 2 ^ 53 * (2 * (q' * 2 ^ k)) + 2 * n"
      using low by simp
    finally have "2 ^ 53 * n \<le> 2 ^ 53 * (q' * 2 ^ k) + n" by simp
    then have "int (2 ^ 53 * n) \<le> int (2 ^ 53 * (q' * 2 ^ k) + n)"
      by (rule iffD2 [OF of_nat_le_iff])
    then show ?thesis unfolding R by (simp add: m algebra_simps)
  qed
qed

lemma golden_ratio_close:
  "\<bar>2 ^ 49 * ((sqrt 5 - 1) / 2) - 347922205179541\<bar> \<le> 1 / 16"
proof -
  have "\<bar>sqrt 5 - 629397181890197 / 2 ^ 48\<bar> < 1 / 2 ^ 52"
    using sqrt_5_nearest by (simp add: sqrt_5_def)
  then show ?thesis unfolding abs_le_iff abs_less_iff by simp
qed

lemma golden_offset_close:
  assumes "1 \<le> t"
  shows "\<bar>real_of_int (golden_offset t) - (sqrt 5 - 1) / 2 * real_of_int t\<bar>
           \<le> 1 / 2 + real_of_int t / 2 ^ 51"
proof -
  define T where "T = round_sig53 t"
  define R where "R = round_sig53 (347922205179541 * T)"
  define d where "d = (R + 2 ^ 48) div 2 ^ 49"
  define phi :: real where "phi = (sqrt 5 - 1) / 2"
  have t0: "0 \<le> t" using assms by simp
  have T: "0 \<le> T" "2 ^ 53 * T \<le> (2 ^ 53 + 1) * t" "(2 ^ 53 - 1) * t \<le> 2 ^ 53 * T"
    unfolding T_def using round_sig53_bound [OF t0] round_sig53_lower [OF t0] by blast+
  have GT: "0 \<le> 347922205179541 * T" using T(1) by simp
  have R: "2 ^ 53 * R \<le> (2 ^ 53 + 1) * (347922205179541 * T)"
      "(2 ^ 53 - 1) * (347922205179541 * T) \<le> 2 ^ 53 * R"
    unfolding R_def using round_sig53_bound [OF GT] round_sig53_lower [OF GT] by blast+
  have eq: "golden_offset t = d"
    unfolding d_def R_def T_def by (rule golden_offset_nonneg_eq [OF t0])
  have "R + 2 ^ 48 = 2 ^ 49 * d + (R + 2 ^ 48) mod 2 ^ 49"
    unfolding d_def by (rule mult_div_mod_eq [symmetric])
  moreover have "0 \<le> (R + 2 ^ 48) mod 2 ^ 49" "(R + 2 ^ 48) mod 2 ^ 49 < 2 ^ 49" by simp_all
  ultimately have d: "2 ^ 49 * d \<le> R + 2 ^ 48" "R + 2 ^ 48 < 2 ^ 49 * d + 2 ^ 49" by linarith+
  have Rt: "16 * (R - 347922205179541 * t) \<le> 3 * t" "16 * (347922205179541 * t - R) \<le> 3 * t"
    using R T assms by simp_all
  have r1: "2 ^ 49 * real_of_int d - real_of_int R \<le> 2 ^ 48"
    "real_of_int R - 2 ^ 49 * real_of_int d \<le> 2 ^ 48"
  proof -
    have "2 ^ 49 * d - R \<le> 2 ^ 48" "R - 2 ^ 49 * d \<le> 2 ^ 48" using d by simp_all
    then have "real_of_int (2 ^ 49 * d - R) \<le> real_of_int (2 ^ 48)"
      "real_of_int (R - 2 ^ 49 * d) \<le> real_of_int (2 ^ 48)"
      by (simp_all only: of_int_le_iff)
    then show "2 ^ 49 * real_of_int d - real_of_int R \<le> 2 ^ 48"
      "real_of_int R - 2 ^ 49 * real_of_int d \<le> 2 ^ 48" by simp_all
  qed
  have r2: "16 * (real_of_int R - 347922205179541 * real_of_int t) \<le> 3 * real_of_int t"
    "16 * (347922205179541 * real_of_int t - real_of_int R) \<le> 3 * real_of_int t"
  proof -
    have "real_of_int (16 * (R - 347922205179541 * t)) \<le> real_of_int (3 * t)"
      "real_of_int (16 * (347922205179541 * t - R)) \<le> real_of_int (3 * t)"
      using Rt by (simp_all only: of_int_le_iff)
    then show "16 * (real_of_int R - 347922205179541 * real_of_int t) \<le> 3 * real_of_int t"
      "16 * (347922205179541 * real_of_int t - real_of_int R) \<le> 3 * real_of_int t"
      by simp_all
  qed
  define u where "u = phi * real_of_int t"
  have r3: "16 * (347922205179541 * real_of_int t - 2 ^ 49 * u) \<le> real_of_int t"
    "16 * (2 ^ 49 * u - 347922205179541 * real_of_int t) \<le> real_of_int t"
  proof -
    have "\<bar>(2 ^ 49 * phi - 347922205179541) * real_of_int t\<bar>
        = \<bar>2 ^ 49 * phi - 347922205179541\<bar> * real_of_int t"
      using t0 by (simp add: abs_mult)
    also have "\<dots> \<le> 1 / 16 * real_of_int t"
      using golden_ratio_close t0 unfolding phi_def by (intro mult_right_mono) simp_all
    finally have "\<bar>2 ^ 49 * u - 347922205179541 * real_of_int t\<bar> \<le> 1 / 16 * real_of_int t"
      by (simp add: u_def algebra_simps)
    then show "16 * (347922205179541 * real_of_int t - 2 ^ 49 * u) \<le> real_of_int t"
      "16 * (2 ^ 49 * u - 347922205179541 * real_of_int t) \<le> real_of_int t"
      unfolding abs_le_iff by simp_all
  qed
  have "real_of_int d - u \<le> 1 / 2 + real_of_int t / 2 ^ 51"
    "u - real_of_int d \<le> 1 / 2 + real_of_int t / 2 ^ 51"
    using r1 r2 r3 by simp_all
  then have "\<bar>real_of_int d - u\<bar> \<le> 1 / 2 + real_of_int t / 2 ^ 51"
    unfolding abs_le_iff by simp
  then show ?thesis unfolding eq u_def phi_def by simp
qed


lemma c_mod_nonneg: "0 \<le> a \<Longrightarrow> 0 < b \<Longrightarrow> c_mod a b = a mod b"
  by (cases "a = 0") (simp_all add: c_mod_def c_div_def minus_div_mult_eq_mod)

text \<open>
  Claim C3, as the code has it. For every \<open>total \<ge> 1\<close> the offset is
  \<open>round(golden_ratio * total)\<close> evaluated in double precision, a function of \<open>total\<close> alone.
  It is not reduced modulo \<open>total\<close> where it is computed: it lies between \<open>0\<close> and \<open>total\<close>
  inclusive, is below \<open>total\<close> for \<open>total \<ge> 2\<close>, and differs from
  \<open>(\<surd>5 - 1) / 2 * total\<close> by at most one half plus the rounding error \<open>total / 2\<^sup>5\<^sup>1\<close> of the
  double arithmetic. The reduction modulo \<open>total\<close> happens in \<open>get_indices\<close>, whose shifted
  index is \<open>(i + offset mod total) mod total\<close>.
\<close>

theorem C3_offset_range:
  assumes "1 \<le> total'"
  shows "0 \<le> golden_offset total' \<and> golden_offset total' \<le> total' \<and>
         (2 \<le> total' \<longrightarrow> golden_offset total' < total') \<and>
         \<bar>real_of_int (golden_offset total') - (sqrt 5 - 1) / 2 * real_of_int total'\<bar>
           \<le> 1 / 2 + real_of_int total' / 2 ^ 51 \<and>
         (\<forall>i. 0 \<le> i \<longrightarrow>
            get_indices (golden_offset total') total' i True =
              (i, (i + golden_offset total' mod total') mod total'))"
proof -
  note r = golden_offset_range [OF assms]
  have "get_indices (golden_offset total') total' i True =
              (i, (i + golden_offset total' mod total') mod total')" if "0 \<le> i" for i
    using that r(1) assms by (simp add: get_indices_def c_mod_nonneg mod_add_right_eq)
  then show ?thesis using r golden_offset_close [OF assms] by blast
qed

theorem C3_offset_range_witness:
  "0 \<le> golden_offset 9 \<and> golden_offset 9 \<le> 9 \<and> golden_offset 9 < 9 \<and>
   \<bar>real_of_int (golden_offset 9) - (sqrt 5 - 1) / 2 * 9\<bar> \<le> 1 / 2 + 9 / 2 ^ 51 \<and>
   get_indices (golden_offset 9) 9 5 True = (5, (5 + golden_offset 9 mod 9) mod 9)"
  using C3_offset_range [of 9] by simp

text \<open>
  Claim C3 as stated fails for \<open>total = 1\<close>: the offset computed is \<open>1\<close>, which is neither
  below \<open>total\<close> nor its own residue modulo \<open>total\<close>.
\<close>

theorem C3_offset_not_below_total:
  "golden_offset 1 = 1 \<and> \<not> (0 \<le> golden_offset 1 \<and> golden_offset 1 < 1) \<and>
   golden_offset 1 \<noteq> golden_offset 1 mod 1"
  by (simp add: golden_offset_1)

section \<open>The permutation\<close>

lemma get_indices_eq:
  assumes "0 \<le> i" "i < t" "0 \<le> off"
  shows "get_indices off t i enc = (if enc then (i, (i + off) mod t) else ((i + off) mod t, i))"
  using assms by (simp add: get_indices_def c_mod_nonneg)

lemma get_indices_range:
  assumes "0 \<le> i" "i < t" "0 \<le> off"
  shows "0 \<le> fst (get_indices off t i enc)" "fst (get_indices off t i enc) < t"
        "0 \<le> snd (get_indices off t i enc)" "snd (get_indices off t i enc) < t"
  using assms by (simp_all add: get_indices_eq)

lemma src_of_less: "0 \<le> off \<Longrightarrow> j < nat t \<Longrightarrow> src_of off t enc j < nat t"
  using get_indices_range(1,2) [of "int j" t off enc] by (simp add: src_of_def nat_less_iff)

lemma dest_of_less: "0 \<le> off \<Longrightarrow> j < nat t \<Longrightarrow> dest_of off t enc j < nat t"
  using get_indices_range(3,4) [of "int j" t off enc] by (simp add: dest_of_def nat_less_iff)

lemma shift_inj:
  fixes i j t off :: int
  assumes "0 \<le> i" "i < t" "0 \<le> j" "j < t" "(i + off) mod t = (j + off) mod t"
  shows "i = j"
proof -
  have "(i + off - (j + off)) mod t = 0"
    using assms(5) by (simp add: mod_eq_dvd_iff)
  then have "t dvd (i - j)" by (simp add: mod_eq_0_iff_dvd)
  moreover have "\<bar>i - j\<bar> < t" using assms by linarith
  ultimately show ?thesis
    using zdvd_not_zless [of "\<bar>i - j\<bar>" t] by (cases "i = j") auto
qed

lemma shift_surj:
  fixes k t off :: int
  assumes "0 \<le> k" "k < t"
  shows "\<exists>i. 0 \<le> i \<and> i < t \<and> (i + off) mod t = k"
proof (intro exI conjI)
  show "0 \<le> (k - off) mod t" "(k - off) mod t < t" using assms by simp_all
  show "((k - off) mod t + off) mod t = k" using assms by (simp add: mod_add_left_eq)
qed

lemma dest_of_inj:
  assumes "0 \<le> off" "j < nat t" "j' < nat t" "dest_of off t enc j = dest_of off t enc j'"
  shows "j = j'"
proof -
  have r: "0 \<le> int j" "int j < t" "0 \<le> int j'" "int j' < t" using assms by simp_all
  have "snd (get_indices off t (int j) enc) = snd (get_indices off t (int j') enc)"
    using assms(4) get_indices_range(3) [OF r(1,2) assms(1), of enc]
      get_indices_range(3) [OF r(3,4) assms(1), of enc]
    by (simp add: dest_of_def eq_nat_nat_iff)
  then have "int j = int j'"
    using shift_inj [OF r] by (simp add: get_indices_eq r assms(1) split: if_splits)
  then show ?thesis by simp
qed

lemma dest_of_surj:
  assumes "0 \<le> off" "k < nat t"
  shows "\<exists>j < nat t. dest_of off t enc j = k"
proof (cases enc)
  case True
  have "0 \<le> int k" "int k < t" using assms by simp_all
  then obtain i where i: "0 \<le> i" "i < t" "(i + off) mod t = int k"
    using shift_surj [of "int k" t off] by blast
  have "dest_of off t enc (nat i) = k"
    using i assms by (simp add: dest_of_def get_indices_eq True)
  moreover have "nat i < nat t" using i by simp
  ultimately show ?thesis by blast
next
  case False
  have "dest_of off t enc k = k"
    using assms by (simp add: dest_of_def get_indices_eq False)
  then show ?thesis using assms by blast
qed

lemma src_of_surj:
  assumes "0 \<le> off" "k < nat t"
  shows "\<exists>j < nat t. src_of off t enc j = k"
proof (cases enc)
  case False
  have "0 \<le> int k" "int k < t" using assms by simp_all
  then obtain i where i: "0 \<le> i" "i < t" "(i + off) mod t = int k"
    using shift_surj [of "int k" t off] by blast
  have "src_of off t enc (nat i) = k"
    using i assms by (simp add: src_of_def get_indices_eq False)
  moreover have "nat i < nat t" using i by simp
  ultimately show ?thesis by blast
next
  case True
  have "src_of off t enc k = k"
    using assms by (simp add: src_of_def get_indices_eq True)
  then show ?thesis using assms by blast
qed

lemma cell_index_less:
  fixes x y r c :: int
  assumes "0 \<le> y" "y < r" "0 \<le> x" "x < c"
  shows "y * c + x < r * c"
proof -
  have "0 \<le> c" "y + 1 \<le> r" using assms by simp_all
  then have "(y + 1) * c \<le> r * c" by (intro mult_right_mono)
  then show ?thesis using assms(4) by (simp add: algebra_simps)
qed

lemma in_Mat_grid:
  assumes "wf_Mat m" "in_grid (cols m) (rows m) p"
  shows "in_Mat m (snd p) (fst p)"
proof -
  have "snd p * cols m + fst p < rows m * cols m"
    using assms(2) by (intro cell_index_less) (simp_all add: in_grid_def)
  moreover have "0 \<le> snd p * cols m + fst p" using assms(2) by (simp add: in_grid_def)
  ultimately have "cell_index m (snd p) (fst p) < length (data m)"
    using assms(1) by (simp add: cell_index_def wf_Mat_def)
  then show ?thesis using assms(2) by (simp add: in_Mat_def in_grid_def)
qed

lemma cell_index_inj:
  assumes "in_grid (cols m) h p" "in_grid (cols m) h q"
    "cell_index m (snd p) (fst p) = cell_index m (snd q) (fst q)"
  shows "p = q"
proof -
  have c: "0 < cols m" using assms(1) by (simp add: in_grid_def)
  have "snd p * cols m + fst p = snd q * cols m + fst q"
    using assms by (simp add: cell_index_def in_grid_def nat_eq_iff)
  then have "(fst p + snd p * cols m) div cols m = (fst q + snd q * cols m) div cols m"
    "(fst p + snd p * cols m) mod cols m = (fst q + snd q * cols m) mod cols m"
    by (simp_all add: add.commute)
  then have "snd p = snd q" "fst p = fst q"
    using assms(1,2) c by (simp_all add: in_grid_def)
  then show ?thesis by (simp add: prod_eq_iff)
qed


lemma valid_curveD:
  assumes "valid_curve w h curve"
  shows "distinct curve" "int (length curve) = w * h"
    "\<And>k. k < length curve \<Longrightarrow> in_grid w h (curve ! k)"
  using assms by (simp_all add: valid_curve_def list_all_length)

lemma vec_at_nth:
  assumes "0 \<le> i" "i < int (length v)"
  shows "vec_at v i = Some (v ! nat i)"
  using assms by (simp add: vec_at_def)

lemma copy_pixel_ok:
  assumes "in_Mat src (snd sp) (fst sp)" "in_Mat dst (snd dp) (fst dp)"
    and "mat_type src = type_of_elem T" "mat_type dst = type_of_elem T"
  shows "copy_pixel T src dst sp dp =
    Inr (dst\<lparr>data := (data dst)[cell_index dst (snd dp) (fst dp) :=
                                    data src ! cell_index src (snd sp) (fst sp)]\<rparr>)"
  using assms by (simp add: copy_pixel_def mat_at_def mat_set_at_def)

lemma copy_loop_done:
  "\<not> i < t \<Longrightarrow> copy_loop i src dst curve t off enc ch d = Inr dst"
  by (subst copy_loop.simps) simp

lemma copy_loop_step:
  assumes "0 \<le> i" "i < t" "0 \<le> off" "int (length curve) = t" "supported_format ch d"
    and "mat_type src = (d, ch)" "mat_type dst = (d, ch)"
    and "in_Mat src (snd (curve ! src_of off t enc (nat i))) (fst (curve ! src_of off t enc (nat i)))"
    and "in_Mat dst (snd (curve ! dest_of off t enc (nat i))) (fst (curve ! dest_of off t enc (nat i)))"
  shows "copy_loop i src dst curve t off enc ch d =
    copy_loop (i + 1) src
      (dst\<lparr>data := (data dst)[cell_index dst (snd (curve ! dest_of off t enc (nat i)))
                                               (fst (curve ! dest_of off t enc (nat i))) :=
         data src ! cell_index src (snd (curve ! src_of off t enc (nat i)))
                                   (fst (curve ! src_of off t enc (nat i)))]\<rparr>)
      curve t off enc ch d"
proof -
  note r = get_indices_range [OF assms(1,2,3), of enc]
  have s: "vec_at curve (fst (get_indices off t i enc)) = Some (curve ! src_of off t enc (nat i))"
    using r(1,2) assms(1,4) by (simp add: vec_at_nth src_of_def)
  have e: "vec_at curve (snd (get_indices off t i enc)) = Some (curve ! dest_of off t enc (nat i))"
    using r(3,4) assms(1,4) by (simp add: vec_at_nth dest_of_def)
  have cp: "copy_pixel T src dst (curve ! src_of off t enc (nat i)) (curve ! dest_of off t enc (nat i)) =
      Inr (dst\<lparr>data := (data dst)[cell_index dst (snd (curve ! dest_of off t enc (nat i)))
                                               (fst (curve ! dest_of off t enc (nat i))) :=
         data src ! cell_index src (snd (curve ! src_of off t enc (nat i)))
                                   (fst (curve ! src_of off t enc (nat i)))]\<rparr>)"
    if "type_of_elem T = (d, ch)" for T
    using copy_pixel_ok [OF assms(8,9), of T] assms(6,7) that by simp
  from assms(5) consider "d = CV_8U" "ch = 1" | "d = CV_8U" "ch = 3" | "d = CV_8U" "ch = 4"
    | "d = CV_16U" "ch = 1" | "d = CV_16U" "ch = 3" | "d = CV_16U" "ch = 4"
    unfolding supported_format_def by blast
  then show ?thesis
  proof cases
    case 1
    show ?thesis using assms(2) cp [of uchar]
      by (subst copy_loop.simps) (simp add: s e 1 split_beta)
  next
    case 2
    show ?thesis using assms(2) cp [of Vec3b]
      by (subst copy_loop.simps) (simp add: s e 2 split_beta)
  next
    case 3
    show ?thesis using assms(2) cp [of Vec4b]
      by (subst copy_loop.simps) (simp add: s e 3 split_beta)
  next
    case 4
    show ?thesis using assms(2) cp [of ushort]
      by (subst copy_loop.simps) (simp add: s e 4 split_beta)
  next
    case 5
    show ?thesis using assms(2) cp [of Vec3w]
      by (subst copy_loop.simps) (simp add: s e 5 split_beta)
  next
    case 6
    show ?thesis using assms(2) cp [of Vec4w]
      by (subst copy_loop.simps) (simp add: s e 6 split_beta)
  qed
qed


lemma point_index_cols: "cols a = cols b \<Longrightarrow> point_index a p = point_index b p"
  by (simp add: point_index_def cell_index_def)

lemma dest_point_inj:
  assumes "valid_curve (cols m) h curve" "int (length curve) = t" "0 \<le> off"
    "j < nat t" "j' < nat t"
    "point_index m (curve ! dest_of off t enc j) = point_index m (curve ! dest_of off t enc j')"
  shows "j = j'"
proof -
  note v = valid_curveD [OF assms(1)]
  have nt: "nat t = length curve" using assms(2) by auto
  have l: "dest_of off t enc j < length curve" "dest_of off t enc j' < length curve"
    using dest_of_less [OF assms(3,4), of enc] dest_of_less [OF assms(3,5), of enc]
    by (simp_all add: nt)
  have "curve ! dest_of off t enc j = curve ! dest_of off t enc j'"
    using cell_index_inj [OF v(3) [OF l(1)] v(3) [OF l(2)]] assms(6)
    by (simp add: point_index_def)
  then have "dest_of off t enc j = dest_of off t enc j'"
    using v(1) l by (simp add: nth_eq_iff_index_eq)
  then show ?thesis using dest_of_inj [OF assms(3,4,5)] by simp
qed

lemma copy_loop_spec:
  assumes fmt: "supported_format ch d"
    and ty: "mat_type src = (d, ch)"
    and len: "int (length curve) = t"
    and off: "0 \<le> off"
    and src: "wf_Mat src"
    and curve: "valid_curve (cols src) (rows src) curve"
    and dst: "wf_Mat dst" "same_shape dst src" "mat_type dst = (d, ch)"
    and i: "0 \<le> i" "i \<le> t"
  shows "\<exists>D. copy_loop i src dst curve t off enc ch d = Inr (dst\<lparr>data := D\<rparr>) \<and>
           length D = length (data dst) \<and>
           (\<forall>j. nat i \<le> j \<and> j < nat t \<longrightarrow>
              D ! point_index dst (curve ! dest_of off t enc j) =
              data src ! point_index src (curve ! src_of off t enc j)) \<and>
           (\<forall>k. (\<forall>j. nat i \<le> j \<and> j < nat t \<longrightarrow> k \<noteq> point_index dst (curve ! dest_of off t enc j))
              \<longrightarrow> D ! k = data dst ! k)"
  using dst i
proof (induction "nat (t - i)" arbitrary: i dst)
  case 0
  then have "\<not> i < t" by simp
  then have "copy_loop i src dst curve t off enc ch d = Inr (dst\<lparr>data := data dst\<rparr>)"
    by (simp add: copy_loop_done)
  moreover have "\<not> (nat i \<le> j \<and> j < nat t)" for j using 0 by linarith
  ultimately show ?case by (intro exI [of _ "data dst"]) auto
next
  case (Suc n)
  then have lt: "i < t" by linarith
  note v = valid_curveD [OF curve]
  let ?s = "curve ! src_of off t enc (nat i)"
  let ?e = "curve ! dest_of off t enc (nat i)"
  have ni: "nat i < nat t" using lt Suc.prems(4) by simp
  have nt: "nat t = length curve" using len by auto
  have ls: "src_of off t enc (nat i) < length curve" and le: "dest_of off t enc (nat i) < length curve"
    using src_of_less [OF off ni, of enc] dest_of_less [OF off ni, of enc] by (simp_all add: nt)
  have cols: "cols dst = cols src" and rows: "rows dst = rows src"
    using Suc.prems(2) by (simp_all add: same_shape_def)
  have ins: "in_Mat src (snd ?s) (fst ?s)"
    using in_Mat_grid [OF src v(3) [OF ls]] .
  have ine: "in_Mat dst (snd ?e) (fst ?e)"
    using in_Mat_grid [OF Suc.prems(1), of ?e] v(3) [OF le] by (simp add: cols rows)
  define dst1 where "dst1 = dst\<lparr>data := (data dst)[point_index dst ?e := data src ! point_index src ?s]\<rparr>"
  have step: "copy_loop i src dst curve t off enc ch d = copy_loop (i + 1) src dst1 curve t off enc ch d"
    unfolding dst1_def point_index_def
    by (rule copy_loop_step [OF Suc.prems(4) lt off len fmt ty Suc.prems(3) ins ine])
  have wf1: "wf_Mat dst1" "same_shape dst1 src" "mat_type dst1 = (d, ch)"
    using Suc.prems(1,2,3) by (simp_all add: dst1_def wf_Mat_def same_shape_def mat_type_def)
  have m: "n = nat (t - (i + 1))" using Suc.hyps(2) by linarith
  have i1: "0 \<le> i + 1" "i + 1 \<le> t" using Suc.prems(4) lt by simp_all
  obtain D where D: "copy_loop (i + 1) src dst1 curve t off enc ch d = Inr (dst1\<lparr>data := D\<rparr>)"
      "length D = length (data dst1)"
      "\<And>j. nat (i + 1) \<le> j \<and> j < nat t \<Longrightarrow>
              D ! point_index dst1 (curve ! dest_of off t enc j) =
              data src ! point_index src (curve ! src_of off t enc j)"
      "\<And>k. (\<forall>j. nat (i + 1) \<le> j \<and> j < nat t \<longrightarrow> k \<noteq> point_index dst1 (curve ! dest_of off t enc j))
              \<Longrightarrow> D ! k = data dst1 ! k"
    using Suc.hyps(1) [OF m wf1 i1] by blast
  have pi1: "point_index dst1 p = point_index dst p" for p
    by (simp add: dst1_def point_index_def cell_index_def)
  have pis: "point_index dst p = point_index src p" for p
    by (rule point_index_cols [OF cols])
  have ni1: "nat (i + 1) = Suc (nat i)" using Suc.prems(4) by simp
  have elen: "point_index dst ?e < length (data dst)"
    using ine by (simp add: in_Mat_def point_index_def)
  have "copy_loop i src dst curve t off enc ch d = Inr (dst\<lparr>data := D\<rparr>)"
    using step D(1) by (simp add: dst1_def)
  moreover have "length D = length (data dst)"
    using D(2) by (simp add: dst1_def)
  moreover have "D ! point_index dst (curve ! dest_of off t enc j) =
              data src ! point_index src (curve ! src_of off t enc j)"
    if j: "nat i \<le> j \<and> j < nat t" for j
  proof (cases "j = nat i")
    case False
    then have "nat (i + 1) \<le> j \<and> j < nat t" using j ni1 by simp
    then show ?thesis using D(3) [of j] by (simp add: pi1)
  next
    case True
    have "point_index dst ?e \<noteq> point_index dst1 (curve ! dest_of off t enc j')"
      if "nat (i + 1) \<le> j' \<and> j' < nat t" for j'
    proof
      assume "point_index dst ?e = point_index dst1 (curve ! dest_of off t enc j')"
      then have "point_index src ?e = point_index src (curve ! dest_of off t enc j')"
        by (simp add: pi1 pis)
      then have "nat i = j'"
        using dest_point_inj [OF curve len off ni, of j' enc] that by simp
      then show False using that ni1 by simp
    qed
    then have "D ! point_index dst ?e = data dst1 ! point_index dst ?e"
      using D(4) [of "point_index dst ?e"] by blast
    also have "\<dots> = data src ! point_index src ?s"
      using elen by (simp add: dst1_def)
    finally show ?thesis by (simp add: True)
  qed
  moreover have "D ! k = data dst ! k"
    if k: "\<forall>j. nat i \<le> j \<and> j < nat t \<longrightarrow> k \<noteq> point_index dst (curve ! dest_of off t enc j)" for k
  proof -
    have "\<forall>j. nat (i + 1) \<le> j \<and> j < nat t \<longrightarrow> k \<noteq> point_index dst1 (curve ! dest_of off t enc j)"
      using k ni1 by (simp add: pi1)
    then have "D ! k = data dst1 ! k" by (rule D(4))
    moreover have "k \<noteq> point_index dst ?e" using k ni by simp
    ultimately show ?thesis by (simp add: dst1_def)
  qed
  ultimately show ?case by blast
qed


lemma copy_pixels_spec:
  assumes fmt: "supported_format ch d"
    and ty: "mat_type src = (d, ch)"
    and len: "int (length curve) = t"
    and off: "0 \<le> off"
    and src: "wf_Mat src"
    and curve: "valid_curve (cols src) (rows src) curve"
    and dst: "wf_Mat dst" "same_shape dst src" "mat_type dst = (d, ch)"
  shows "\<exists>D. copy_pixels src dst curve t off enc ch d = Inr (dst\<lparr>data := D\<rparr>) \<and>
           length D = length (data dst) \<and>
           (\<forall>j < nat t. D ! point_index src (curve ! dest_of off t enc j) =
                          data src ! point_index src (curve ! src_of off t enc j))"
proof -
  have t0: "0 \<le> t" using len by auto
  have pis: "point_index dst p = point_index src p" for p
    using dst(2) by (intro point_index_cols) (simp add: same_shape_def)
  obtain D where "copy_loop 0 src dst curve t off enc ch d = Inr (dst\<lparr>data := D\<rparr>)"
      "length D = length (data dst)"
      "\<forall>j. nat 0 \<le> j \<and> j < nat t \<longrightarrow>
              D ! point_index dst (curve ! dest_of off t enc j) =
              data src ! point_index src (curve ! src_of off t enc j)"
    using copy_loop_spec [where i = 0 and enc = enc, OF fmt ty len off src curve dst] t0 by auto
  then show ?thesis by (auto simp: copy_pixels_def pis)
qed

lemma valid_curve_covers:
  assumes "valid_curve w h curve" "0 \<le> w" "0 \<le> h"
  shows "set curve = {0..<w} \<times> {0..<h}"
proof (rule card_subset_eq)
  note v = valid_curveD [OF assms(1)]
  show "finite ({0..<w} \<times> {0..<h})" by simp
  show "set curve \<subseteq> {0..<w} \<times> {0..<h}"
    using assms(1) by (auto simp: valid_curve_def list_all_iff in_grid_def)
  have "card (set curve) = length curve" using v(1) by (rule distinct_card)
  also have "\<dots> = nat (w * h)" using v(2) by simp
  also have "\<dots> = card ({0..<w} \<times> {0..<h})"
    using assms(2,3) by (simp add: nat_mult_distrib)
  finally show "card (set curve) = card ({0..<w} \<times> {0..<h})" .
qed

lemma data_eqI:
  assumes a: "wf_Mat a" and b: "wf_Mat b" and sh: "same_shape a b"
    and curve: "valid_curve (cols b) (rows b) curve"
    and eq: "\<And>k. k < length curve \<Longrightarrow>
               data a ! point_index b (curve ! k) = data b ! point_index b (curve ! k)"
  shows "data a = data b"
proof (rule nth_equalityI)
  show len: "length (data a) = length (data b)"
    using a b sh by (simp add: wf_Mat_def same_shape_def)
  fix i assume "i < length (data a)"
  then have i: "int i < rows b * cols b" using len b by (simp add: wf_Mat_def)
  have r0: "0 \<le> rows b" and c0: "0 \<le> cols b" using b by (simp_all add: wf_Mat_def)
  have cpos: "0 < cols b"
  proof (rule ccontr)
    assume "\<not> 0 < cols b"
    then have "cols b = 0" using c0 by simp
    then show False using i by simp
  qed
  define x where "x = int i mod cols b"
  define y where "y = int i div cols b"
  have x: "0 \<le> x" "x < cols b" using cpos by (simp_all add: x_def)
  have y0: "0 \<le> y" using cpos by (simp add: y_def pos_imp_zdiv_nonneg_iff)
  have ixy: "int i = cols b * y + x"
    by (simp add: x_def y_def)
  have y: "y < rows b"
  proof (rule ccontr)
    assume "\<not> y < rows b"
    then have "cols b * rows b \<le> cols b * y" using c0 by (intro mult_left_mono) simp_all
    then show False using i ixy x(1) by (simp add: mult.commute)
  qed
  have "(x, y) \<in> set curve"
    using valid_curve_covers [OF curve c0 r0] x y0 y by simp
  then obtain k where k: "k < length curve" "curve ! k = (x, y)"
    by (auto simp: in_set_conv_nth)
  have "point_index b (x, y) = i"
    by (simp add: point_index_def cell_index_def x_def y_def)
  then show "data a ! i = data b ! i" using eq [OF k(1)] by (simp add: k(2))
qed


lemma wf_zeros_like: "wf_Mat m \<Longrightarrow> wf_Mat (zeros_like m)"
  by (simp add: wf_Mat_def zeros_like_def)

lemma same_shape_zeros_like: "same_shape (zeros_like m) m"
  by (simp add: same_shape_def zeros_like_def)

lemma zeros_like_data_update: "zeros_like (m\<lparr>data := D\<rparr>) = zeros_like m"
  by (simp add: zeros_like_def)

lemma zeros_like_idem: "zeros_like (zeros_like m) = zeros_like m"
  by (simp add: zeros_like_def)

lemma mat_type_zeros_like: "mat_type (zeros_like m) = mat_type m"
  by (simp add: mat_type_def zeros_like_def)

lemma mat_type_data_update: "mat_type (m\<lparr>data := D\<rparr>) = mat_type m"
  by (simp add: mat_type_def)

lemma index_identities:
  assumes "0 \<le> off" "j < nat t"
  shows "dest_of off t False j = j" "src_of off t True j = j"
    "src_of off t False j = dest_of off t True j"
  using assms by (simp_all add: dest_of_def src_of_def get_indices_eq)

lemma pass_result:
  assumes fmt: "supported_format ch d"
    and ty: "mat_type img = (d, ch)"
    and img: "wf_Mat img"
    and curve: "valid_curve (cols img) (rows img) curve"
    and t: "t = cols img * rows img"
    and off: "0 \<le> off"
  shows "\<exists>D. copy_pixels img (zeros_like img) curve t off enc ch d = Inr (img\<lparr>data := D\<rparr>) \<and>
           wf_Mat (img\<lparr>data := D\<rparr>) \<and>
           (\<forall>j < nat t. D ! point_index img (curve ! dest_of off t enc j) =
                          data img ! point_index img (curve ! src_of off t enc j))"
proof -
  have len: "int (length curve) = t" using valid_curveD(2) [OF curve] t by simp
  have tz: "mat_type (zeros_like img) = (d, ch)" using ty by (simp add: mat_type_zeros_like)
  obtain D where D: "copy_pixels img (zeros_like img) curve t off enc ch d = Inr (zeros_like img\<lparr>data := D\<rparr>)"
      "length D = length (data (zeros_like img))"
      "\<forall>j < nat t. D ! point_index img (curve ! dest_of off t enc j) =
                          data img ! point_index img (curve ! src_of off t enc j)"
    using copy_pixels_spec [OF fmt ty len off img curve wf_zeros_like [OF img] same_shape_zeros_like tz,
        of enc]
    by blast
  have "zeros_like img\<lparr>data := D\<rparr> = img\<lparr>data := D\<rparr>" by (simp add: zeros_like_def)
  moreover have "wf_Mat (img\<lparr>data := D\<rparr>)"
    using img D(2) by (simp add: wf_Mat_def zeros_like_def)
  ultimately show ?thesis using D(1,3) by auto
qed

lemma roundtrip:
  assumes fmt: "supported_format ch d"
    and ty: "mat_type img = (d, ch)"
    and img: "wf_Mat img"
    and curve: "valid_curve (cols img) (rows img) curve"
    and t: "t = cols img * rows img"
    and off: "0 \<le> off"
  shows "\<exists>s. copy_pixels img (zeros_like img) curve t off True ch d = Inr s \<and>
             copy_pixels s (zeros_like s) curve t off False ch d = Inr img"
    and "\<exists>u. copy_pixels img (zeros_like img) curve t off False ch d = Inr u \<and>
             copy_pixels u (zeros_like u) curve t off True ch d = Inr img"
proof -
  have nt: "nat t = length curve" using valid_curveD(2) [OF curve] t by simp
  have fin: "img\<lparr>data := D2\<rparr> = img"
    if wf2: "wf_Mat (img\<lparr>data := D2\<rparr>)"
      and eq: "\<And>k. k < length curve \<Longrightarrow>
        D2 ! point_index img (curve ! k) = data img ! point_index img (curve ! k)" for D2
  proof -
    have "data (img\<lparr>data := D2\<rparr>) = data img"
      by (rule data_eqI [OF wf2 img _ curve]) (simp_all add: same_shape_def eq)
    then show ?thesis by simp
  qed
  have second: "\<exists>D2. copy_pixels (img\<lparr>data := D\<rparr>) (zeros_like (img\<lparr>data := D\<rparr>)) curve t off enc ch d
                    = Inr (img\<lparr>data := D2\<rparr>) \<and> wf_Mat (img\<lparr>data := D2\<rparr>) \<and>
           (\<forall>j < nat t. D2 ! point_index img (curve ! dest_of off t enc j) =
                          D ! point_index img (curve ! src_of off t enc j))"
    if wf1: "wf_Mat (img\<lparr>data := D\<rparr>)" for D enc
  proof -
    have c1: "valid_curve (cols (img\<lparr>data := D\<rparr>)) (rows (img\<lparr>data := D\<rparr>)) curve"
      using curve by simp
    have t1: "t = cols (img\<lparr>data := D\<rparr>) * rows (img\<lparr>data := D\<rparr>)" using t by simp
    have pi: "point_index (img\<lparr>data := D\<rparr>) p = point_index img p" for p
      by (simp add: point_index_def cell_index_def)
    have ty1: "mat_type (img\<lparr>data := D\<rparr>) = (d, ch)"
      using ty by (simp add: mat_type_data_update)
    show ?thesis
      using pass_result [OF fmt ty1 wf1 c1 t1 off, of enc] by (simp add: pi)
  qed
  show "\<exists>s. copy_pixels img (zeros_like img) curve t off True ch d = Inr s \<and>
             copy_pixels s (zeros_like s) curve t off False ch d = Inr img"
  proof -
    obtain D where D: "copy_pixels img (zeros_like img) curve t off True ch d = Inr (img\<lparr>data := D\<rparr>)"
        "wf_Mat (img\<lparr>data := D\<rparr>)"
        "\<forall>j < nat t. D ! point_index img (curve ! dest_of off t True j) =
                          data img ! point_index img (curve ! src_of off t True j)"
      using pass_result [OF fmt ty img curve t off, of True] by blast
    obtain D2 where D2: "copy_pixels (img\<lparr>data := D\<rparr>) (zeros_like (img\<lparr>data := D\<rparr>)) curve t off False ch d
                    = Inr (img\<lparr>data := D2\<rparr>)" "wf_Mat (img\<lparr>data := D2\<rparr>)"
        "\<forall>j < nat t. D2 ! point_index img (curve ! dest_of off t False j) =
                          D ! point_index img (curve ! src_of off t False j)"
      using second [OF D(2), of False] by blast
    have "D2 ! point_index img (curve ! k) = data img ! point_index img (curve ! k)"
      if "k < length curve" for k
    proof -
      have k: "k < nat t" using that nt by simp
      note ii = index_identities [OF off k]
      have "D2 ! point_index img (curve ! k) = D ! point_index img (curve ! dest_of off t True k)"
        using D2(3) k by (metis ii(1,3))
      also have "\<dots> = data img ! point_index img (curve ! k)"
        using D(3) k by (simp add: ii(2))
      finally show ?thesis .
    qed
    then have "img\<lparr>data := D2\<rparr> = img" by (rule fin [OF D2(2)])
    then show ?thesis using D(1) D2(1) by auto
  qed
  show "\<exists>u. copy_pixels img (zeros_like img) curve t off False ch d = Inr u \<and>
             copy_pixels u (zeros_like u) curve t off True ch d = Inr img"
  proof -
    obtain D where D: "copy_pixels img (zeros_like img) curve t off False ch d = Inr (img\<lparr>data := D\<rparr>)"
        "wf_Mat (img\<lparr>data := D\<rparr>)"
        "\<forall>j < nat t. D ! point_index img (curve ! dest_of off t False j) =
                          data img ! point_index img (curve ! src_of off t False j)"
      using pass_result [OF fmt ty img curve t off, of False] by blast
    obtain D2 where D2: "copy_pixels (img\<lparr>data := D\<rparr>) (zeros_like (img\<lparr>data := D\<rparr>)) curve t off True ch d
                    = Inr (img\<lparr>data := D2\<rparr>)" "wf_Mat (img\<lparr>data := D2\<rparr>)"
        "\<forall>j < nat t. D2 ! point_index img (curve ! dest_of off t True j) =
                          D ! point_index img (curve ! src_of off t True j)"
      using second [OF D(2), of True] by blast
    have "D2 ! point_index img (curve ! k) = data img ! point_index img (curve ! k)"
      if "k < length curve" for k
    proof -
      have k: "k < nat t" using that nt by simp
      obtain j where j: "j < nat t" "dest_of off t True j = k"
        using dest_of_surj [OF off k, of True] by blast
      note ii = index_identities [OF off j(1)]
      have "D2 ! point_index img (curve ! k) = D ! point_index img (curve ! j)"
        using D2(3) j by (metis ii(2))
      also have "\<dots> = data img ! point_index img (curve ! src_of off t False j)"
        using D(3) j(1) by (metis ii(1))
      also have "\<dots> = data img ! point_index img (curve ! k)"
        by (simp add: ii(3) j(2))
      finally show ?thesis .
    qed
    then have "img\<lparr>data := D2\<rparr> = img" by (rule fin [OF D2(2)])
    then show ?thesis using D(1) D2(1) by auto
  qed
qed


lemma pixel_of_grid:
  assumes "wf_Mat m" "in_grid (cols m) (rows m) p"
  shows "pixel_of m p = Some (data m ! point_index m p)"
  using in_Mat_grid [OF assms] by (simp add: pixel_of_def mat_at_def point_index_def)

lemma indices_as_nat:
  assumes "0 \<le> off" "0 \<le> i" "i < t"
  shows "src_of off t enc (nat i) = (if enc then nat i else nat ((i + off) mod t))"
    "dest_of off t enc (nat i) = (if enc then nat ((i + off) mod t) else nat i)"
  using assms by (simp_all add: src_of_def dest_of_def get_indices_eq)

text \<open>
  Claim C4. Let the arguments \<open>channels\<close> and \<open>depth\<close> be those of the two buffers, in a
  supported format, the curve be valid for their shape and of length \<open>total\<close> with
  \<open>1 \<le> total \<le> INT_MAX\<close>, and the offset be non-negative with \<open>offset + total \<le> INT64_MAX\<close>
  (so that the \<open>int\<close> loop counter reaches \<open>total\<close> and no sum \<open>i + offset\<close> leaves
  \<open>int64_t\<close>). Then \<open>copy_pixels\<close> returns the destination buffer, of the same type, and for
  every index \<open>i\<close> in \<open>[0, total)\<close>: when scrambling, the pixel of the source at \<open>curve[i]\<close> is
  the pixel of the result at \<open>curve[(i + offset) mod total]\<close>; when unscrambling, the pixel of
  the source at \<open>curve[(i + offset) mod total]\<close> is the pixel of the result at \<open>curve[i]\<close>. A
  pixel is the list of all its channel values, so every channel is copied.
\<close>

theorem C4_copy_follows_curve:
  assumes "supported_format channels depth"
    and "mat_channels src_img = channels" and "mat_depth src_img = depth"
    and "mat_channels dst_img = channels" and "mat_depth dst_img = depth"
    and "wf_Mat src_img" and "wf_Mat dst_img" and "same_shape dst_img src_img"
    and "valid_curve (cols src_img) (rows src_img) curve"
    and "int (length curve) = total'" and "1 \<le> total'" and "total' \<le> INT_MAX"
    and "0 \<le> offset" and "offset \<le> INT64_MAX - total'"
  shows "\<exists>out. copy_pixels src_img dst_img curve total' offset is_encrypt channels depth = Inr out \<and>
    mat_channels out = channels \<and> mat_depth out = depth \<and>
    (\<forall>i. 0 \<le> i \<and> i < total' \<longrightarrow>
       i + offset \<le> INT64_MAX \<and>
       get_indices offset total' i is_encrypt =
         (if is_encrypt then (i, (i + offset) mod total') else ((i + offset) mod total', i)) \<and>
       (\<exists>px. if is_encrypt
             then pixel_of src_img (curve ! nat i) = Some px \<and>
                  pixel_of out (curve ! nat ((i + offset) mod total')) = Some px
             else pixel_of src_img (curve ! nat ((i + offset) mod total')) = Some px \<and>
                  pixel_of out (curve ! nat i) = Some px))"
proof -
  note fmt = assms(1) and src = assms(6) and dst = assms(7) and sh = assms(8)
    and curve = assms(9) and len = assms(10) and off = assms(13)
  have ty: "mat_type src_img = (depth, channels)" "mat_type dst_img = (depth, channels)"
    using assms(2-5) by (simp_all add: mat_type_def)
  note v = valid_curveD [OF curve]
  have nt: "nat total' = length curve" using len by auto
  obtain D where D: "copy_pixels src_img dst_img curve total' offset is_encrypt channels depth
        = Inr (dst_img\<lparr>data := D\<rparr>)"
      "length D = length (data dst_img)"
      "\<forall>j < nat total'. D ! point_index src_img (curve ! dest_of offset total' is_encrypt j) =
                          data src_img ! point_index src_img (curve ! src_of offset total' is_encrypt j)"
    using copy_pixels_spec [OF fmt ty(1) len off src curve dst sh ty(2), of is_encrypt] by blast
  let ?out = "dst_img\<lparr>data := D\<rparr>"
  have shape: "cols dst_img = cols src_img" "rows dst_img = rows src_img"
    using sh by (simp_all add: same_shape_def)
  have wfo: "wf_Mat ?out" using dst D(2) by (simp add: wf_Mat_def)
  have po: "pixel_of ?out (curve ! k) = Some (D ! point_index src_img (curve ! k))"
    if "k < length curve" for k
    using pixel_of_grid [OF wfo, of "curve ! k"] v(3) [OF that]
    by (simp add: shape point_index_def cell_index_def)
  have ps: "pixel_of src_img (curve ! k) = Some (data src_img ! point_index src_img (curve ! k))"
    if "k < length curve" for k
    using pixel_of_grid [OF src v(3) [OF that]] .
  have "i + offset \<le> INT64_MAX \<and>
       get_indices offset total' i is_encrypt =
         (if is_encrypt then (i, (i + offset) mod total') else ((i + offset) mod total', i)) \<and>
       (\<exists>px. if is_encrypt
             then pixel_of src_img (curve ! nat i) = Some px \<and>
                  pixel_of ?out (curve ! nat ((i + offset) mod total')) = Some px
             else pixel_of src_img (curve ! nat ((i + offset) mod total')) = Some px \<and>
                  pixel_of ?out (curve ! nat i) = Some px)"
    if i: "0 \<le> i \<and> i < total'" for i
  proof -
    have j: "nat i < nat total'" using i by simp
    note ia = indices_as_nat [OF off, of i total' is_encrypt]
    have ls: "src_of offset total' is_encrypt (nat i) < length curve"
      and ld: "dest_of offset total' is_encrypt (nat i) < length curve"
      using src_of_less [OF off j, of is_encrypt] dest_of_less [OF off j, of is_encrypt]
      by (simp_all add: nt)
    have "pixel_of ?out (curve ! dest_of offset total' is_encrypt (nat i)) =
          pixel_of src_img (curve ! src_of offset total' is_encrypt (nat i))"
      using D(3) j by (simp add: po [OF ld] ps [OF ls])
    moreover have "i + offset \<le> INT64_MAX" using i assms(14) by linarith
    ultimately show ?thesis
      using i ia ps [OF ls] by (cases is_encrypt) (simp_all add: get_indices_eq off)
  qed
  moreover have "mat_channels ?out = channels" "mat_depth ?out = depth"
    using assms(4,5) by simp_all
  ultimately show ?thesis using D(1) by blast
qed

theorem C4_copy_follows_curve_witness:
  "\<exists>out. copy_pixels
       \<lparr>rows = 2, cols = 2, mat_channels = 3, mat_depth = CV_8U,
        data = [[1, 2, 3], [4, 5, 6], [7, 8, 9], [10, 11, 12]]\<rparr>
       \<lparr>rows = 2, cols = 2, mat_channels = 3, mat_depth = CV_8U,
        data = [[0, 0, 0], [0, 0, 0], [0, 0, 0], [0, 0, 0]]\<rparr>
       [(0, 0), (0, 1), (1, 1), (1, 0)] 4 2 True 3 CV_8U = Inr out \<and>
    mat_channels out = 3 \<and> mat_depth out = CV_8U \<and>
    (\<forall>i. 0 \<le> i \<and> i < 4 \<longrightarrow>
       i + 2 \<le> INT64_MAX \<and>
       get_indices 2 4 i True = (if True then (i, (i + 2) mod 4) else ((i + 2) mod 4, i)) \<and>
       (\<exists>px. if True
             then pixel_of \<lparr>rows = 2, cols = 2, mat_channels = 3, mat_depth = CV_8U,
                     data = [[1, 2, 3], [4, 5, 6], [7, 8, 9], [10, 11, 12]]\<rparr>
                    ([(0, 0), (0, 1), (1, 1), (1, 0)] ! nat i) = Some px \<and>
                  pixel_of out ([(0, 0), (0, 1), (1, 1), (1, 0)] ! nat ((i + 2) mod 4)) = Some px
             else pixel_of \<lparr>rows = 2, cols = 2, mat_channels = 3, mat_depth = CV_8U,
                     data = [[1, 2, 3], [4, 5, 6], [7, 8, 9], [10, 11, 12]]\<rparr>
                    ([(0, 0), (0, 1), (1, 1), (1, 0)] ! nat ((i + 2) mod 4)) = Some px \<and>
                  pixel_of out ([(0, 0), (0, 1), (1, 1), (1, 0)] ! nat i) = Some px))"
  by (rule C4_copy_follows_curve)
     (simp_all add: supported_format_def wf_Mat_def same_shape_def valid_curve_def in_grid_def
        INT_MAX_def INT64_MAX_def)


lemma dest_index_bij:
  assumes "0 \<le> off"
  shows "bij_betw (\<lambda>i. snd (get_indices off t i enc)) {0..<t} {0..<t}"
proof (rule bij_betw_imageI)
  show "inj_on (\<lambda>i. snd (get_indices off t i enc)) {0..<t}"
  proof (rule inj_onI)
    fix i j assume ij: "i \<in> {0..<t}" "j \<in> {0..<t}"
      and eq: "snd (get_indices off t i enc) = snd (get_indices off t j enc)"
    then have r: "0 \<le> i" "i < t" "0 \<le> j" "j < t" by simp_all
    show "i = j"
      using eq shift_inj [OF r, of off]
      by (simp add: get_indices_eq r assms split: if_splits)
  qed
  show "(\<lambda>i. snd (get_indices off t i enc)) ` {0..<t} = {0..<t}"
  proof (intro equalityI subsetI)
    fix k assume "k \<in> (\<lambda>i. snd (get_indices off t i enc)) ` {0..<t}"
    then obtain i where i: "0 \<le> i" "i < t" "k = snd (get_indices off t i enc)" by auto
    then show "k \<in> {0..<t}" using get_indices_range(3,4) [OF i(1,2) assms, of enc] by simp
  next
    fix k assume "k \<in> {0..<t}"
    then have k: "0 \<le> k" "k < t" by simp_all
    obtain i where i: "0 \<le> i" "i < t" "(i + off) mod t = k"
      using shift_surj [OF k, of off] by blast
    have "k = snd (get_indices off t (if enc then i else k) enc)"
      using i k assms by (simp add: get_indices_eq)
    moreover have "(if enc then i else k) \<in> {0..<t}" using i k by simp
    ultimately show "k \<in> (\<lambda>i. snd (get_indices off t i enc)) ` {0..<t}" by (rule image_eqI)
  qed
qed

lemma loop_writes_cells:
  "map fst (loop_writes src curve t off enc) = map (\<lambda>j. curve ! dest_of off t enc j) [0..<nat t]"
  by (simp add: loop_writes_def comp_def)

lemma written_cells_perm:
  assumes "0 \<le> off" "int (length curve) = t" "distinct curve"
  shows "distinct (map fst (loop_writes src curve t off enc))"
    "set (map fst (loop_writes src curve t off enc)) = set curve"
proof -
  have nt: "nat t = length curve" using assms(2) by auto
  have "inj_on (\<lambda>j. curve ! dest_of off t enc j) {0..<nat t}"
  proof (rule inj_onI)
    fix j j' assume jj: "j \<in> {0..<nat t}" "j' \<in> {0..<nat t}"
      and eq: "curve ! dest_of off t enc j = curve ! dest_of off t enc j'"
    then have l: "j < nat t" "j' < nat t" by simp_all
    have "dest_of off t enc j = dest_of off t enc j'"
      using eq assms(3) dest_of_less [OF assms(1) l(1), of enc] dest_of_less [OF assms(1) l(2), of enc]
      by (simp add: nth_eq_iff_index_eq nt)
    then show "j = j'" by (rule dest_of_inj [OF assms(1) l])
  qed
  then show "distinct (map fst (loop_writes src curve t off enc))"
    unfolding loop_writes_cells by (simp add: distinct_map)
  show "set (map fst (loop_writes src curve t off enc)) = set curve"
    unfolding loop_writes_cells
  proof (intro equalityI subsetI)
    fix p assume "p \<in> set (map (\<lambda>j. curve ! dest_of off t enc j) [0..<nat t])"
    then obtain j where "j < nat t" "p = curve ! dest_of off t enc j" by auto
    then show "p \<in> set curve"
      using dest_of_less [OF assms(1), of j t enc] by (simp add: nt)
  next
    fix p assume "p \<in> set curve"
    then obtain k where k: "k < length curve" "p = curve ! k" by (auto simp: in_set_conv_nth)
    then obtain j where "j < nat t" "dest_of off t enc j = k"
      using dest_of_surj [OF assms(1), of k t enc] by (auto simp: nt)
    then show "p \<in> set (map (\<lambda>j. curve ! dest_of off t enc j) [0..<nat t])"
      using k(2) by auto
  qed
qed

text \<open>
  The loop from iteration \<open>i\<close> on performs the writes of the iterations \<open>i, \<dots>, total - 1\<close>,
  one after the other, and nothing else.
\<close>

lemma copy_loop_writes:
  assumes fmt: "supported_format ch d"
    and ty: "mat_type src = (d, ch)"
    and len: "int (length curve) = t"
    and off: "0 \<le> off"
    and src: "wf_Mat src"
    and curve: "valid_curve (cols src) (rows src) curve"
    and dst: "wf_Mat dst" "same_shape dst src" "mat_type dst = (d, ch)"
    and i: "i \<le> nat t"
  shows "copy_loop (int i) src dst curve t off enc ch d =
    Inr (foldl write_pixel dst
           (map (\<lambda>j. (curve ! dest_of off t enc j,
                      data src ! point_index src (curve ! src_of off t enc j))) [i..<nat t]))"
  using dst i
proof (induction "nat t - i" arbitrary: i dst)
  case 0
  then have "\<not> int i < t" by linarith
  moreover have "[i..<nat t] = []" using 0 by simp
  ultimately show ?case by (simp add: copy_loop_done)
next
  case (Suc n)
  then have lt: "i < nat t" by linarith
  then have it: "int i < t" by linarith
  note v = valid_curveD [OF curve]
  let ?s = "curve ! src_of off t enc i"
  let ?e = "curve ! dest_of off t enc i"
  let ?w = "(?e, data src ! point_index src ?s)"
  have nt: "nat t = length curve" using len by auto
  have ls: "src_of off t enc i < length curve" and le: "dest_of off t enc i < length curve"
    using src_of_less [OF off lt, of enc] dest_of_less [OF off lt, of enc] by (simp_all add: nt)
  have shape: "cols dst = cols src" "rows dst = rows src"
    using Suc.prems(2) by (simp_all add: same_shape_def)
  have ins: "in_Mat src (snd (curve ! src_of off t enc (nat (int i))))
                        (fst (curve ! src_of off t enc (nat (int i))))"
    using in_Mat_grid [OF src v(3) [OF ls]] by simp
  have ine: "in_Mat dst (snd (curve ! dest_of off t enc (nat (int i))))
                        (fst (curve ! dest_of off t enc (nat (int i))))"
    using in_Mat_grid [OF Suc.prems(1), of ?e] v(3) [OF le] by (simp add: shape)
  have step: "copy_loop (int i) src dst curve t off enc ch d =
      copy_loop (int (Suc i)) src (write_pixel dst ?w) curve t off enc ch d"
    using copy_loop_step [OF _ it off len fmt ty Suc.prems(3) ins ine]
    by (simp add: write_pixel_def point_index_def add.commute)
  have wf1: "wf_Mat (write_pixel dst ?w)" "same_shape (write_pixel dst ?w) src"
      "mat_type (write_pixel dst ?w) = (d, ch)"
    using Suc.prems(1,2,3)
    by (simp_all add: write_pixel_def wf_Mat_def same_shape_def mat_type_def)
  have m: "n = nat t - Suc i" using Suc.hyps(2) by linarith
  have i1: "Suc i \<le> nat t" using lt by simp
  have "[i..<nat t] = i # [Suc i..<nat t]" using lt by (rule upt_conv_Cons)
  then show ?case
    using step Suc.hyps(1) [OF m wf1 i1] by simp
qed

lemma copy_pixels_writes:
  assumes fmt: "supported_format ch d"
    and ty: "mat_type src = (d, ch)"
    and len: "int (length curve) = t"
    and off: "0 \<le> off"
    and src: "wf_Mat src"
    and curve: "valid_curve (cols src) (rows src) curve"
    and dst: "wf_Mat dst" "same_shape dst src" "mat_type dst = (d, ch)"
  shows "copy_pixels src dst curve t off enc ch d =
    Inr (foldl write_pixel dst (loop_writes src curve t off enc))"
  using copy_loop_writes [OF fmt ty len off src curve dst, of 0 enc]
  by (simp add: copy_pixels_def loop_writes_def)

text \<open>
  Claim C9. For a curve of length \<open>total\<close> with \<open>1 \<le> total \<le> INT_MAX\<close>, an offset that is
  non-negative with \<open>offset + total \<le> INT64_MAX\<close>, and either direction: at every loop index
  \<open>i\<close> in \<open>[0, total)\<close> the next value of the counter stays in \<open>int\<close>, the sum \<open>i + offset\<close>
  stays in \<open>int64_t\<close>, and both indices that \<open>get_indices\<close> returns lie in \<open>[0, total)\<close>, so
  both accesses to the curve are in bounds;
  and the destination index is a bijection on \<open>[0, total)\<close>. When moreover the curve is valid
  for the shape of the two buffers and \<open>channels\<close> and \<open>depth\<close> are theirs, in a supported
  format, \<open>copy_pixels\<close> returns (no access leaves the curve or a buffer), and what it returns
  is the destination buffer after the \<open>total\<close> writes of its iterations, carried out one after
  the other; the cells of these writes are pairwise different and are all the cells of the
  destination buffer: every cell is written exactly once.
\<close>

theorem C9_curve_accesses_in_bounds:
  assumes "int (length curve) = total'" and "1 \<le> total'" and "total' \<le> INT_MAX"
    and "0 \<le> offset" and "offset \<le> INT64_MAX - total'"
  shows "(\<forall>i. 0 \<le> i \<and> i < total' \<longrightarrow>
           i + 1 \<le> INT_MAX \<and> i + offset \<le> INT64_MAX \<and>
           0 \<le> fst (get_indices offset total' i is_encrypt) \<and>
           fst (get_indices offset total' i is_encrypt) < total' \<and>
           0 \<le> snd (get_indices offset total' i is_encrypt) \<and>
           snd (get_indices offset total' i is_encrypt) < total' \<and>
           vec_at curve (fst (get_indices offset total' i is_encrypt)) \<noteq> None \<and>
           vec_at curve (snd (get_indices offset total' i is_encrypt)) \<noteq> None) \<and>
         bij_betw (\<lambda>i. snd (get_indices offset total' i is_encrypt)) {0..<total'} {0..<total'} \<and>
         (\<forall>src_img dst_img channels depth.
            supported_format channels depth \<and>
            mat_channels src_img = channels \<and> mat_depth src_img = depth \<and>
            mat_channels dst_img = channels \<and> mat_depth dst_img = depth \<and>
            wf_Mat src_img \<and> wf_Mat dst_img \<and> same_shape dst_img src_img \<and>
            valid_curve (cols src_img) (rows src_img) curve \<longrightarrow>
            copy_pixels src_img dst_img curve total' offset is_encrypt channels depth =
              Inr (foldl write_pixel dst_img
                     (loop_writes src_img curve total' offset is_encrypt)) \<and>
            int (length (loop_writes src_img curve total' offset is_encrypt)) = total' \<and>
            distinct (map fst (loop_writes src_img curve total' offset is_encrypt)) \<and>
            set (map fst (loop_writes src_img curve total' offset is_encrypt)) =
              {0..<cols dst_img} \<times> {0..<rows dst_img} \<and>
            (\<forall>x y. 0 \<le> x \<and> x < cols dst_img \<and> 0 \<le> y \<and> y < rows dst_img \<longrightarrow>
               count_list (map fst (loop_writes src_img curve total' offset is_encrypt)) (x, y) = 1))"
proof -
  note len = assms(1) and off = assms(4)
  have "i + 1 \<le> INT_MAX \<and> i + offset \<le> INT64_MAX \<and>
           0 \<le> fst (get_indices offset total' i is_encrypt) \<and>
           fst (get_indices offset total' i is_encrypt) < total' \<and>
           0 \<le> snd (get_indices offset total' i is_encrypt) \<and>
           snd (get_indices offset total' i is_encrypt) < total' \<and>
           vec_at curve (fst (get_indices offset total' i is_encrypt)) \<noteq> None \<and>
           vec_at curve (snd (get_indices offset total' i is_encrypt)) \<noteq> None"
    if "0 \<le> i \<and> i < total'" for i
  proof -
    from that have i: "0 \<le> i" "i < total'" by simp_all
    note r = get_indices_range [OF i off, of is_encrypt]
    have "i + 1 \<le> INT_MAX" "i + offset \<le> INT64_MAX" using i assms(3,5) by linarith+
    then show ?thesis using r by (simp add: vec_at_def len)
  qed
  moreover have "copy_pixels src_img dst_img curve total' offset is_encrypt channels depth =
              Inr (foldl write_pixel dst_img
                     (loop_writes src_img curve total' offset is_encrypt)) \<and>
            int (length (loop_writes src_img curve total' offset is_encrypt)) = total' \<and>
            distinct (map fst (loop_writes src_img curve total' offset is_encrypt)) \<and>
            set (map fst (loop_writes src_img curve total' offset is_encrypt)) =
              {0..<cols dst_img} \<times> {0..<rows dst_img} \<and>
            (\<forall>x y. 0 \<le> x \<and> x < cols dst_img \<and> 0 \<le> y \<and> y < rows dst_img \<longrightarrow>
               count_list (map fst (loop_writes src_img curve total' offset is_encrypt)) (x, y) = 1)"
    if h: "supported_format channels depth \<and>
            mat_channels src_img = channels \<and> mat_depth src_img = depth \<and>
            mat_channels dst_img = channels \<and> mat_depth dst_img = depth \<and>
            wf_Mat src_img \<and> wf_Mat dst_img \<and> same_shape dst_img src_img \<and>
            valid_curve (cols src_img) (rows src_img) curve"
    for src_img dst_img channels depth
  proof -
    from h have fmt: "supported_format channels depth"
      and ty: "mat_type src_img = (depth, channels)" "mat_type dst_img = (depth, channels)"
      and src: "wf_Mat src_img" and dst: "wf_Mat dst_img" and sh: "same_shape dst_img src_img"
      and curve: "valid_curve (cols src_img) (rows src_img) curve"
      by (simp_all add: mat_type_def)
    have shape: "cols dst_img = cols src_img" "rows dst_img = rows src_img"
      using sh by (simp_all add: same_shape_def)
    have nn: "0 \<le> cols src_img" "0 \<le> rows src_img" using src by (simp_all add: wf_Mat_def)
    let ?cells = "map fst (loop_writes src_img curve total' offset is_encrypt)"
    have d: "distinct ?cells"
      using written_cells_perm(1) [OF off len valid_curveD(1) [OF curve]] .
    have c: "set ?cells = {0..<cols dst_img} \<times> {0..<rows dst_img}"
      using written_cells_perm(2) [OF off len valid_curveD(1) [OF curve], of src_img is_encrypt]
        valid_curve_covers [OF curve nn] by (simp add: shape)
    have "count_list ?cells (x, y) = 1"
      if "0 \<le> x \<and> x < cols dst_img \<and> 0 \<le> y \<and> y < rows dst_img" for x y
    proof -
      have "(x, y) \<in> set ?cells" unfolding c using that by simp
      then show ?thesis using d by (simp add: count_list_distinct)
    qed
    moreover have "int (length (loop_writes src_img curve total' offset is_encrypt)) = total'"
      using assms(2) by (simp add: loop_writes_def)
    ultimately show ?thesis
      using copy_pixels_writes [OF fmt ty(1) len off src curve dst sh ty(2), of is_encrypt] d c
      by blast
  qed
  ultimately show ?thesis
    using dest_index_bij [OF off] by blast
qed

theorem C9_curve_accesses_in_bounds_witness:
  "get_indices 2 4 3 True = (3, 1) \<and>
   vec_at ([(0, 0), (0, 1), (1, 1), (1, 0)] :: Point list) (snd (get_indices 2 4 3 True)) \<noteq> None \<and>
   bij_betw (\<lambda>i. snd (get_indices 2 4 i True)) {0..<4} {0..<4} \<and>
   copy_pixels
     \<lparr>rows = 2, cols = 2, mat_channels = 3, mat_depth = CV_8U,
      data = [[1, 2, 3], [4, 5, 6], [7, 8, 9], [10, 11, 12]]\<rparr>
     \<lparr>rows = 2, cols = 2, mat_channels = 3, mat_depth = CV_8U,
      data = [[0, 0, 0], [0, 0, 0], [0, 0, 0], [0, 0, 0]]\<rparr>
     [(0, 0), (0, 1), (1, 1), (1, 0)] 4 2 True 3 CV_8U =
   Inr (foldl write_pixel
     \<lparr>rows = 2, cols = 2, mat_channels = 3, mat_depth = CV_8U,
      data = [[0, 0, 0], [0, 0, 0], [0, 0, 0], [0, 0, 0]]\<rparr>
     (loop_writes
        \<lparr>rows = 2, cols = 2, mat_channels = 3, mat_depth = CV_8U,
         data = [[1, 2, 3], [4, 5, 6], [7, 8, 9], [10, 11, 12]]\<rparr>
        [(0, 0), (0, 1), (1, 1), (1, 0)] 4 2 True)) \<and>
   distinct (map fst (loop_writes
        \<lparr>rows = 2, cols = 2, mat_channels = 3, mat_depth = CV_8U,
         data = [[1, 2, 3], [4, 5, 6], [7, 8, 9], [10, 11, 12]]\<rparr>
        [(0, 0), (0, 1), (1, 1), (1, 0)] 4 2 True)) \<and>
   set (map fst (loop_writes
        \<lparr>rows = 2, cols = 2, mat_channels = 3, mat_depth = CV_8U,
         data = [[1, 2, 3], [4, 5, 6], [7, 8, 9], [10, 11, 12]]\<rparr>
        [(0, 0), (0, 1), (1, 1), (1, 0)] 4 2 True)) = {0..<2} \<times> {0..<2}"
proof -
  let ?curve = "[(0, 0), (0, 1), (1, 1), (1, 0)] :: Point list"
  let ?src = "\<lparr>rows = 2, cols = 2, mat_channels = 3, mat_depth = CV_8U,
      data = [[1, 2, 3], [4, 5, 6], [7, 8, 9], [10, 11, 12]]\<rparr>"
  let ?dst = "\<lparr>rows = 2, cols = 2, mat_channels = 3, mat_depth = CV_8U,
      data = [[0, 0, 0], [0, 0, 0], [0, 0, 0], [0, 0, 0]]\<rparr>"
  have h: "int (length ?curve) = 4" "1 \<le> (4 :: int)" "(4 :: int) \<le> INT_MAX"
    "0 \<le> (2 :: int)" "(2 :: int) \<le> INT64_MAX - 4"
    by (simp_all add: INT_MAX_def INT64_MAX_def)
  note t = C9_curve_accesses_in_bounds [OF h, of True]
  have g: "get_indices 2 4 3 True = (3, 1)" by (simp add: get_indices_def c_mod_def c_div_def)
  have v: "vec_at ?curve (snd (get_indices 2 4 3 True)) \<noteq> None"
    unfolding g by (simp add: vec_at_def)
  have b: "bij_betw (\<lambda>i. snd (get_indices 2 4 i True)) {0..<4} {0..<4}"
    using t by blast
  have p: "supported_format 3 CV_8U \<and>
            mat_channels ?src = 3 \<and> mat_depth ?src = CV_8U \<and>
            mat_channels ?dst = 3 \<and> mat_depth ?dst = CV_8U \<and>
            wf_Mat ?src \<and> wf_Mat ?dst \<and> same_shape ?dst ?src \<and>
            valid_curve (cols ?src) (rows ?src) ?curve"
    by (simp add: supported_format_def wf_Mat_def same_shape_def valid_curve_def in_grid_def)
  from t have "\<forall>src_img dst_img channels depth.
            supported_format channels depth \<and>
            mat_channels src_img = channels \<and> mat_depth src_img = depth \<and>
            mat_channels dst_img = channels \<and> mat_depth dst_img = depth \<and>
            wf_Mat src_img \<and> wf_Mat dst_img \<and> same_shape dst_img src_img \<and>
            valid_curve (cols src_img) (rows src_img) ?curve \<longrightarrow>
            copy_pixels src_img dst_img ?curve 4 2 True channels depth =
              Inr (foldl write_pixel dst_img (loop_writes src_img ?curve 4 2 True)) \<and>
            int (length (loop_writes src_img ?curve 4 2 True)) = 4 \<and>
            distinct (map fst (loop_writes src_img ?curve 4 2 True)) \<and>
            set (map fst (loop_writes src_img ?curve 4 2 True)) =
              {0..<cols dst_img} \<times> {0..<rows dst_img} \<and>
            (\<forall>x y. 0 \<le> x \<and> x < cols dst_img \<and> 0 \<le> y \<and> y < rows dst_img \<longrightarrow>
               count_list (map fst (loop_writes src_img ?curve 4 2 True)) (x, y) = 1)"
    by (elim conjE)
  from this [rule_format, OF p]
  have "copy_pixels ?src ?dst ?curve 4 2 True 3 CV_8U =
              Inr (foldl write_pixel ?dst (loop_writes ?src ?curve 4 2 True)) \<and>
            distinct (map fst (loop_writes ?src ?curve 4 2 True)) \<and>
            set (map fst (loop_writes ?src ?curve 4 2 True)) = {0..<2} \<times> {0..<2}"
    by (simp only: Mat.select_convs)
  with g v b show ?thesis by blast
qed



section \<open>Processing an image\<close>

lemma generate2d_2_1: "generate2d 0 0 2 0 0 1 [] = Some [(0, 0), (1, 0)]"
  by (subst generate2d.simps) (simp add: unit_step_def fill_line.simps)

lemma generate_mapping_2_1: "generate_mapping 2 1 = Some ([], [(0, 0), (1, 0)])"
  by (simp add: generate_mapping_def generate2d_2_1)

lemma copy_two_pixels:
  assumes "supported_format channels depth"
  shows "copy_pixels
       \<lparr>rows = 1, cols = 2, mat_channels = channels, mat_depth = depth, data = [p0, p1]\<rparr>
       (zeros_like \<lparr>rows = 1, cols = 2, mat_channels = channels, mat_depth = depth, data = [p0, p1]\<rparr>)
       [(0, 0), (1, 0)] 2 1 True channels depth =
     Inr \<lparr>rows = 1, cols = 2, mat_channels = channels, mat_depth = depth, data = [p1, p0]\<rparr>"
proof -
  have g: "get_indices 1 2 0 True = (0, 1)" "get_indices 1 2 1 True = (1, 0)"
    by (simp_all add: get_indices_def c_mod_def c_div_def)
  have r: "replicate 2 x = [x, x]" for x :: pixel
    by (simp add: numeral_2_eq_2)
  show ?thesis
    using assms
    by (auto simp: r copy_pixels_def copy_loop.simps [of 0] copy_loop.simps [of 1]
        copy_loop.simps [of 2] g vec_at_def copy_pixel_def mat_at_def mat_set_at_def in_Mat_def
        cell_index_def zeros_like_def supported_format_def mat_type_def)
qed


text \<open>
  Claim C8. For width 2 and height 1 the generated curve is exactly \<open>[(0,0), (1,0)]\<close>,
  \<open>total\<close> is 2, the computed offset is 1, scrambling maps index 0 to \<open>curve[1]\<close> and index 1
  to \<open>curve[0]\<close>, and the two pixels of an image in a supported format are swapped.
\<close>

theorem C8_two_by_one:
  assumes "supported_format channels depth"
  shows "generate_mapping 2 1 = Some ([], [(0, 0), (1, 0)]) \<and>
         golden_offset (2 * 1) = 1 \<and>
         get_indices 1 2 0 True = (0, 1) \<and> get_indices 1 2 1 True = (1, 0) \<and>
         copy_pixels
           \<lparr>rows = 1, cols = 2, mat_channels = channels, mat_depth = depth, data = [p0, p1]\<rparr>
           (zeros_like
              \<lparr>rows = 1, cols = 2, mat_channels = channels, mat_depth = depth, data = [p0, p1]\<rparr>)
           [(0, 0), (1, 0)] 2 1 True channels depth =
         Inr \<lparr>rows = 1, cols = 2, mat_channels = channels, mat_depth = depth, data = [p1, p0]\<rparr>"
proof -
  have "get_indices 1 2 0 True = (0, 1)" "get_indices 1 2 1 True = (1, 0)"
    by (simp_all add: get_indices_def c_mod_def c_div_def)
  then show ?thesis
    using generate_mapping_2_1 golden_offset_2 copy_two_pixels [OF assms] by simp
qed

theorem C8_two_by_one_witness:
  "generate_mapping 2 1 = Some ([], [(0, 0), (1, 0)]) \<and>
   golden_offset (2 * 1) = 1 \<and>
   get_indices 1 2 0 True = (0, 1) \<and> get_indices 1 2 1 True = (1, 0) \<and>
   copy_pixels
     \<lparr>rows = 1, cols = 2, mat_channels = 3, mat_depth = CV_8U, data = [[255, 0, 0], [0, 0, 255]]\<rparr>
     (zeros_like
        \<lparr>rows = 1, cols = 2, mat_channels = 3, mat_depth = CV_8U, data = [[255, 0, 0], [0, 0, 255]]\<rparr>)
     [(0, 0), (1, 0)] 2 1 True 3 CV_8U =
   Inr \<lparr>rows = 1, cols = 2, mat_channels = 3, mat_depth = CV_8U, data = [[0, 0, 255], [255, 0, 0]]\<rparr>"
  by (rule C8_two_by_one) (simp add: supported_format_def)


text \<open>
  Claim C7. An image whose channel count is not 1, 3 or 4, or whose depth is not \<open>CV_8U\<close> or
  \<open>CV_16U\<close>, is rejected by \<open>process_image\<close> with the error for its format, whatever its
  pixels are; and a curve whose length is not \<open>width * height\<close> is rejected with the error
  for the curve, whatever the pixels are. In each case the call returns the error and no
  image: \<open>copy_pixels\<close> is not reached.
\<close>

theorem C7_unsupported_input_rejected:
  "(mat_channels img \<noteq> 1 \<and> mat_channels img \<noteq> 3 \<and> mat_channels img \<noteq> 4 \<longrightarrow>
      (\<forall>D. process_image (img\<lparr>data := D\<rparr>) is_encrypt =
           Some (Inl (UnsupportedChannels (mat_channels img))))) \<and>
   ((mat_channels img = 1 \<or> mat_channels img = 3 \<or> mat_channels img = 4) \<and>
    mat_depth img \<noteq> CV_8U \<and> mat_depth img \<noteq> CV_16U \<longrightarrow>
      (\<forall>D. process_image (img\<lparr>data := D\<rparr>) is_encrypt =
           Some (Inl (UnsupportedDepth (mat_depth img))))) \<and>
   (int (length curve) \<noteq> cols img * rows img \<longrightarrow>
      (\<forall>D. process_curve (img\<lparr>data := D\<rparr>) curve is_encrypt =
           (if curve = [] then Inl InvalidCurve
            else Inl (CurveSizeMismatch (length curve) (cols img * rows img)))))"
  by (simp add: process_image_def process_curve_def Let_def)

theorem C7_unsupported_input_rejected_witness:
  "process_image \<lparr>rows = 1, cols = 2, mat_channels = 2, mat_depth = CV_8U,
                   data = [[1, 2], [3, 4]]\<rparr> True = Some (Inl (UnsupportedChannels 2)) \<and>
   process_image \<lparr>rows = 1, cols = 2, mat_channels = 3, mat_depth = CV_32F,
                   data = [[1, 2, 3], [4, 5, 6]]\<rparr> True = Some (Inl (UnsupportedDepth CV_32F)) \<and>
   process_curve \<lparr>rows = 1, cols = 2, mat_channels = 3, mat_depth = CV_8U,
                   data = [[1, 2, 3], [4, 5, 6]]\<rparr> [(0, 0)] True = Inl (CurveSizeMismatch 1 2)"
proof -
  have "process_image \<lparr>rows = 1, cols = 2, mat_channels = 2, mat_depth = CV_8U,
                   data = [[1, 2], [3, 4]]\<rparr> True = Some (Inl (UnsupportedChannels 2))"
    using C7_unsupported_input_rejected [of "\<lparr>rows = 1, cols = 2, mat_channels = 2,
       mat_depth = CV_8U, data = [[1, 2], [3, 4]]\<rparr>" True "[]", THEN conjunct1]
    by simp
  moreover have "process_image \<lparr>rows = 1, cols = 2, mat_channels = 3, mat_depth = CV_32F,
                   data = [[1, 2, 3], [4, 5, 6]]\<rparr> True = Some (Inl (UnsupportedDepth CV_32F))"
    using C7_unsupported_input_rejected [of "\<lparr>rows = 1, cols = 2, mat_channels = 3,
       mat_depth = CV_32F, data = [[1, 2, 3], [4, 5, 6]]\<rparr>" True "[]",
       THEN conjunct2, THEN conjunct1]
    by simp
  moreover have "process_curve \<lparr>rows = 1, cols = 2, mat_channels = 3, mat_depth = CV_8U,
                   data = [[1, 2, 3], [4, 5, 6]]\<rparr> [(0, 0)] True = Inl (CurveSizeMismatch 1 2)"
    using C7_unsupported_input_rejected [of "\<lparr>rows = 1, cols = 2, mat_channels = 3,
       mat_depth = CV_8U, data = [[1, 2, 3], [4, 5, 6]]\<rparr>" True "[(0, 0)]",
       THEN conjunct2, THEN conjunct2]
    by simp
  ultimately show ?thesis by blast
qed

lemma index_covered:
  assumes b: "wf_Mat b" and curve: "valid_curve (cols b) (rows b) curve"
    and i: "i < length (data b)"
  shows "\<exists>k < length curve. point_index b (curve ! k) = i"
proof -
  have i': "int i < rows b * cols b" using i b by (simp add: wf_Mat_def)
  have r0: "0 \<le> rows b" and c0: "0 \<le> cols b" using b by (simp_all add: wf_Mat_def)
  have cpos: "0 < cols b"
  proof (rule ccontr)
    assume "\<not> 0 < cols b"
    then have "cols b = 0" using c0 by simp
    then show False using i' by simp
  qed
  define x where "x = int i mod cols b"
  define y where "y = int i div cols b"
  have x: "0 \<le> x" "x < cols b" using cpos by (simp_all add: x_def)
  have y0: "0 \<le> y" using cpos by (simp add: y_def pos_imp_zdiv_nonneg_iff)
  have ixy: "int i = cols b * y + x"
    by (simp add: x_def y_def)
  have y: "y < rows b"
  proof (rule ccontr)
    assume "\<not> y < rows b"
    then have "cols b * rows b \<le> cols b * y" using c0 by (intro mult_left_mono) simp_all
    then show False using i' ixy x(1) by (simp add: mult.commute)
  qed
  have "(x, y) \<in> set curve"
    using valid_curve_covers [OF curve c0 r0] x y0 y by simp
  then obtain k where k: "k < length curve" "curve ! k = (x, y)"
    by (auto simp: in_set_conv_nth)
  have "point_index b (x, y) = i"
    by (simp add: point_index_def cell_index_def x_def y_def)
  then show ?thesis using k by auto
qed



lemma generate_mapping_valid:
  assumes "1 \<le> width" "1 \<le> height"
  shows "\<exists>curve. generate_mapping width height = Some ([], curve) \<and>
           valid_curve width height curve \<and> curve \<noteq> []"
proof -
  obtain curve where c: "generate_mapping width height = Some ([], curve)"
      "length curve = nat (width * height)" "distinct curve"
      "set curve = {0..<width} \<times> {0..<height}"
    using generate_mapping_curve [OF assms] by blast
  have "0 < width * height" using assms by simp
  then have "int (length curve) = width * height" "curve \<noteq> []" using c(2) by auto
  moreover have "list_all (in_grid width height) curve"
    using c(4) by (auto simp: list_all_iff in_grid_def)
  ultimately show ?thesis using c(1,3) by (auto simp: valid_curve_def)
qed

lemma process_curve_checks_pass:
  assumes "valid_curve (cols img) (rows img) curve" "curve \<noteq> []"
  shows "process_curve img curve enc =
    (case copy_pixels img (zeros_like img) curve (cols img * rows img)
            (golden_offset (cols img * rows img)) enc (mat_channels img) (mat_depth img) of
       Inl e \<Rightarrow> Inl e
     | Inr out \<Rightarrow>
         (let s = cv_sum out
          in if s ! 0 = 0 \<and> s ! 1 = 0 \<and> s ! 2 = 0 \<and> s ! 3 = 0 then Inl AllZeroOutput
             else Inr out))"
proof -
  note v = valid_curveD [OF assms(1)]
  have "find (\<lambda>p. fst p < 0 \<or> fst p \<ge> cols img \<or> snd p < 0 \<or> snd p \<ge> rows img) curve = None"
    using assms(1) by (auto simp: find_None_iff valid_curve_def list_all_iff in_grid_def)
  then show ?thesis
    using assms(2) v(2) by (simp add: process_curve_def Let_def)
qed





lemma pass_permutes:
  assumes fmt: "supported_format ch d"
    and ty: "mat_type img = (d, ch)"
    and img: "wf_Mat img"
    and curve: "valid_curve (cols img) (rows img) curve"
    and t: "t = cols img * rows img"
    and off: "0 \<le> off"
  shows "\<exists>D. copy_pixels img (zeros_like img) curve t off enc ch d = Inr (img\<lparr>data := D\<rparr>) \<and>
           wf_Mat (img\<lparr>data := D\<rparr>) \<and> set D = set (data img)"
proof -
  obtain D where D: "copy_pixels img (zeros_like img) curve t off enc ch d = Inr (img\<lparr>data := D\<rparr>)"
      "wf_Mat (img\<lparr>data := D\<rparr>)"
      "\<forall>j < nat t. D ! point_index img (curve ! dest_of off t enc j) =
                          data img ! point_index img (curve ! src_of off t enc j)"
    using pass_result [OF fmt ty img curve t off, of enc] by blast
  note v = valid_curveD [OF curve]
  have nt: "nat t = length curve" using v(2) t by simp
  have len: "length D = length (data img)" using D(2) img by (simp add: wf_Mat_def)
  have c1: "valid_curve (cols (img\<lparr>data := D\<rparr>)) (rows (img\<lparr>data := D\<rparr>)) curve"
    using curve by simp
  have pidx: "point_index img (curve ! k) < length (data img)" if "k < length curve" for k
    using in_Mat_grid [OF img v(3) [OF that]] by (simp add: in_Mat_def point_index_def)
  have "set D = set (data img)"
  proof (intro equalityI subsetI)
    fix px assume "px \<in> set D"
    then obtain k where k: "k < length D" "px = D ! k" by (auto simp: in_set_conv_nth)
    obtain k' where k': "k' < length curve" "point_index (img\<lparr>data := D\<rparr>) (curve ! k') = k"
      using index_covered [OF D(2) c1] k(1) by auto
    obtain j where j: "j < nat t" "dest_of off t enc j = k'"
      using dest_of_surj [OF off, of k' t enc] k'(1) nt by auto
    have pk: "point_index img (curve ! k') = k"
      using k'(2) by (simp add: point_index_def cell_index_def)
    have ls: "src_of off t enc j < length curve"
      using src_of_less [OF off j(1), of enc] nt by simp
    have "D ! k = data img ! point_index img (curve ! src_of off t enc j)"
      using D(3) j pk by auto
    then show "px \<in> set (data img)" using k(2) pidx [OF ls] by simp
  next
    fix px assume "px \<in> set (data img)"
    then obtain i where i: "i < length (data img)" "px = data img ! i" by (auto simp: in_set_conv_nth)
    obtain k' where k': "k' < length curve" "point_index img (curve ! k') = i"
      using index_covered [OF img curve i(1)] by auto
    obtain j where j: "j < nat t" "src_of off t enc j = k'"
      using src_of_surj [OF off, of k' t enc] k'(1) nt by auto
    have ld: "dest_of off t enc j < length curve"
      using dest_of_less [OF off j(1), of enc] nt by simp
    have "D ! point_index img (curve ! dest_of off t enc j) = px"
      using D(3) j k'(2) i(2) by auto
    moreover have "point_index img (curve ! dest_of off t enc j) < length D"
      using pidx [OF ld] len by simp
    ultimately show "px \<in> set D" by (metis nth_mem)
  qed
  with D(1,2) show ?thesis by blast
qed

lemma cv_sum_nonzero:
  assumes "\<not> all_zero m" "wf_pixels m" "mat_channels m \<le> 4"
  shows "\<not> (cv_sum m ! 0 = 0 \<and> cv_sum m ! 1 = 0 \<and> cv_sum m ! 2 = 0 \<and> cv_sum m ! 3 = 0)"
proof -
  obtain px v where px: "px \<in> set (data m)" "v \<in> set px" "v \<noteq> 0"
    using assms(1) by (auto simp: all_zero_def list_all_iff)
  then obtain c where c: "c < length px" "px ! c = v" by (auto simp: in_set_conv_nth)
  have "int (length px) = mat_channels m"
    using assms(2) px(1) by (simp add: wf_pixels_def list_all_iff)
  then have c4: "c < 4" using c(1) assms(3) by linarith
  let ?f = "\<lambda>px. if c < length px then px ! c else 0"
  have "?f px \<le> sum_list (map ?f (data m))"
    using px(1) by (intro member_le_sum_list) auto
  then have pos: "0 < sum_list (map ?f (data m))" using c px(3) by simp
  have cases: "c = 0 \<or> c = 1 \<or> c = 2 \<or> c = 3" using c4 by linarith
  have eq: "cv_sum m ! c = sum_list (map ?f (data m))"
  proof -
    have "cv_sum m ! k = sum_list (map (\<lambda>px. if k < length px then px ! k else 0) (data m))"
      if "k = 0 \<or> k = 1 \<or> k = 2 \<or> k = 3" for k
      using that by (elim disjE) (simp_all add: cv_sum_def cong: if_cong)
    then show ?thesis using cases by blast
  qed
  have "cv_sum m ! c \<noteq> 0" unfolding eq using pos by linarith
  then show ?thesis using cases by auto
qed

text \<open>
  At the level of \<open>process_image\<close> the round trip holds for every image that is not all zero:
  the permuted image has the same pixels in another order, so it passes the check of the
  sums, and processing it in the other direction returns the original.
\<close>

lemma process_image_roundtrip:
  assumes img: "wf_Mat img" "wf_pixels img" and c: "1 \<le> cols img" and r: "1 \<le> rows img"
    and fmt: "supported_format (mat_channels img) (mat_depth img)"
    and nz: "\<not> all_zero img"
  shows "\<exists>s. process_image img enc = Some (Inr s) \<and> process_image s (\<not> enc) = Some (Inr img)"
proof -
  let ?t = "cols img * rows img"
  let ?ch = "mat_channels img" and ?d = "mat_depth img"
  obtain curve where cv: "generate_mapping (cols img) (rows img) = Some ([], curve)"
      "valid_curve (cols img) (rows img) curve" "curve \<noteq> []"
    using generate_mapping_valid [OF c r] by blast
  have "1 \<le> ?t" using c r mult_mono [of 1 "cols img" 1 "rows img"] by simp
  then have off: "0 \<le> golden_offset ?t" by (rule golden_offset_range)
  have ch4: "?ch \<le> 4" using fmt by (auto simp: supported_format_def)
  have chk: "?ch = 1 \<or> ?ch = 3 \<or> ?ch = 4" "?d = CV_8U \<or> ?d = CV_16U"
    using fmt by (auto simp: supported_format_def)
  obtain D where D: "copy_pixels img (zeros_like img) curve ?t (golden_offset ?t) enc ?ch ?d
        = Inr (img\<lparr>data := D\<rparr>)" "wf_Mat (img\<lparr>data := D\<rparr>)" "set D = set (data img)"
    using pass_permutes [OF fmt mat_type_def img(1) cv(2) refl off, of enc] by blast
  let ?s = "img\<lparr>data := D\<rparr>"
  have snz: "\<not> all_zero ?s" "wf_pixels ?s"
    using nz img(2) D(3) by (simp_all add: all_zero_def wf_pixels_def list_all_iff)
  have ps: "process_curve img curve enc = Inr ?s"
    using D(1) cv_sum_nonzero [OF snz] ch4
    by (simp add: process_curve_checks_pass [OF cv(2,3)] Let_def)
  have 1: "process_image img enc = Some (Inr ?s)"
    using chk cv(1) ps by (auto simp: process_image_def)
  have rev: "copy_pixels ?s (zeros_like ?s) curve ?t (golden_offset ?t) (\<not> enc) ?ch ?d = Inr img"
  proof (cases enc)
    case True
    obtain s' where "copy_pixels img (zeros_like img) curve ?t (golden_offset ?t) True ?ch ?d = Inr s'"
        "copy_pixels s' (zeros_like s') curve ?t (golden_offset ?t) False ?ch ?d = Inr img"
      using roundtrip(1) [OF fmt mat_type_def img(1) cv(2) refl off] by blast
    then show ?thesis using D(1) True by simp
  next
    case False
    obtain s' where "copy_pixels img (zeros_like img) curve ?t (golden_offset ?t) False ?ch ?d = Inr s'"
        "copy_pixels s' (zeros_like s') curve ?t (golden_offset ?t) True ?ch ?d = Inr img"
      using roundtrip(2) [OF fmt mat_type_def img(1) cv(2) refl off] by blast
    then show ?thesis using D(1) False by simp
  qed
  have cs: "valid_curve (cols ?s) (rows ?s) curve" using cv(2) by simp
  have "process_curve ?s curve (\<not> enc) = Inr img"
    using rev cv_sum_nonzero [OF nz img(2) ch4]
    by (simp add: process_curve_checks_pass [OF cs cv(3)] Let_def)
  then have 2: "process_image ?s (\<not> enc) = Some (Inr img)"
    using chk cv(1) by (auto simp: process_image_def)
  from 1 2 show ?thesis by blast
qed

end
